theory Spec2Isabelle
  imports Complex_Main
begin

section \<open>The duplicate file finder: data model\<close>

text \<open>
  The program is one Python module, \<^verbatim>\<open>DuplicateFileFinder.py\<close>. It reads the file
  system through \<^verbatim>\<open>pathlib\<close>, \<^verbatim>\<open>os.walk\<close>, \<^verbatim>\<open>open\<close> and \<^verbatim>\<open>hashlib\<close>. Every such
  read is a field of the record \<open>world\<close>: a snapshot of the file system as one run sees
  it. A resolved absolute path is the list of its components; \<^verbatim>\<open>Path(root) / name\<close>
  appends one component.
\<close>

type_synonym path = "string list"
type_synonym bytes = "char list"

text \<open>One triple \<^verbatim>\<open>(root, dirs, files)\<close> as \<^verbatim>\<open>os.walk\<close> yields it.\<close>

type_synonym walk_triple = "path \<times> string list \<times> string list"

record world =
  resolve :: "string \<Rightarrow> path"
  path_exists :: "path \<Rightarrow> bool"
  path_is_dir :: "path \<Rightarrow> bool"
  os_walk :: "path \<Rightarrow> string + walk_triple list"
  is_symlink :: "path \<Rightarrow> bool"
  st_size :: "path \<Rightarrow> nat option"
  open_read :: "path \<Rightarrow> string + bytes"
  sha256_hex :: "bytes \<Rightarrow> string"

text \<open>
  \<open>os_walk w d = Inl e\<close>: the traversal raises the exception \<open>e\<close>.
  \<open>st_size w p = None\<close>: \<^verbatim>\<open>p.stat()\<close> raises \<^verbatim>\<open>OSError\<close>.
  \<open>open_read w p = Inl e\<close>: opening or reading \<open>p\<close> raises the \<^verbatim>\<open>OSError\<close> \<open>e\<close>;
  \<open>Inr bs\<close>: the file is read to its end and holds the bytes \<open>bs\<close>.
  \<open>sha256_hex w\<close> is the library's digest of a byte string, as hexadecimal text.
\<close>

text \<open>
  Everything the program prints, and every file it opens, is an entry of a trace. The
  constructors carry the values that the format strings interpolate; colours and
  glyphs are left out. \<open>Progress_Bar current total\<close> is a call of
  \<^verbatim>\<open>print_progress_bar\<close>, whose line is computed further down; \<open>Group_Member\<close>
  carries whether the member is the first (kept) and whether it is the last of its
  group; \<open>Total_Wasted\<close> carries the byte count that \<^verbatim>\<open>format_size\<close> renders; \<open>Footer\<close>
  is the two closing lines.
\<close>

datatype io =
    Open_Read path
  | Warn_Skipping path string
  | Progress_Bar nat nat
  | Clear_Progress
  | Err_Directory_Invalid path
  | Counting_Files path
  | Err_Traversal string
  | No_Files_Found
  | Footer
  | Processing_Files nat
  | No_Duplicates_Found
  | Found_Duplicates
  | Group_Header string nat
  | Group_Member bool bool path
  | Tip string
  | Blank_Line
  | Total_Groups nat
  | Total_Files nat
  | Total_Wasted int
  | Help_Text string
  | Err_Missing_Directory
  | Usage_Scan string
  | Err_Unknown_Command string

text \<open>An entry of the list \<^verbatim>\<open>duplicates\<close>: the dictionary with keys \<^verbatim>\<open>file_size\<close>, \<^verbatim>\<open>files\<close>.\<close>

record duplicate_group =
  file_size :: nat
  files :: "path list"

text \<open>The variables of \<^verbatim>\<open>run_scan\<close> that its loops update.\<close>

record scan_state =
  processed_count :: nat
  duplicates :: "duplicate_group list"
  trace :: "io list"


section \<open>Dictionaries in insertion order\<close>

text \<open>
  A \<^verbatim>\<open>defaultdict(list)\<close> keeps its keys in the order of their first insertion, and the
  loops of \<^verbatim>\<open>run_scan\<close> iterate in that order: it is an association list.
  \<open>dd_append d k v\<close> is \<^verbatim>\<open>d[k].append(v)\<close>.
\<close>

fun dd_append :: "('k \<times> 'v list) list \<Rightarrow> 'k \<Rightarrow> 'v \<Rightarrow> ('k \<times> 'v list) list" where
  "dd_append [] k v = [(k, [v])]"
| "dd_append ((k', vs) # rest) k v =
     (if k' = k then (k', vs @ [v]) # rest else (k', vs) # dd_append rest k v)"

section \<open>The hasher\<close>

definition buffer_size :: nat where
  "buffer_size = 8192"

text \<open>
  The loop of \<^verbatim>\<open>compute_file_hash\<close>: \<open>sha\<close> is the digest object, as the bytes fed to
  it so far (\<^verbatim>\<open>update\<close> appends), \<open>f\<close> the part of the file not read yet.
\<close>

function read_chunks :: "bytes \<Rightarrow> bytes \<Rightarrow> bytes" where
  "read_chunks sha f =
     (let chunk = take buffer_size f in
      if chunk = [] then sha else read_chunks (sha @ chunk) (drop buffer_size f))"
  by pat_completeness auto
termination
  by (relation "measure (\<lambda>(sha, f). length f)") (auto simp: buffer_size_def)

declare read_chunks.simps [simp del]

text \<open>The result is the empty string when the file cannot be read.\<close>

definition compute_file_hash :: "world \<Rightarrow> path \<Rightarrow> string \<times> io list" where
  "compute_file_hash w p =
     (case open_read w p of
        Inl e \<Rightarrow> ([], [Open_Read p, Warn_Skipping p e])
      | Inr content \<Rightarrow> (sha256_hex w (read_chunks [] content), [Open_Read p]))"

section \<open>Enumeration\<close>

text \<open>Lines 95 to 102: the files of every triple that are not symbolic links.\<close>

fun collect_names :: "world \<Rightarrow> path \<Rightarrow> string list \<Rightarrow> path list \<Rightarrow> path list" where
  "collect_names w root_dir [] all_files = all_files"
| "collect_names w root_dir (name # names) all_files =
     (let filepath = root_dir @ [name] in
      collect_names w root_dir names
        (if \<not> is_symlink w filepath then all_files @ [filepath] else all_files))"

fun collect_files :: "world \<Rightarrow> walk_triple list \<Rightarrow> path list \<Rightarrow> path list" where
  "collect_files w [] all_files = all_files"
| "collect_files w ((root_dir, dirs, names) # rest) all_files =
     collect_files w rest (collect_names w root_dir names all_files)"

definition enumerate_files :: "world \<Rightarrow> path \<Rightarrow> string + path list" where
  "enumerate_files w target_dir =
     (case os_walk w target_dir of
        Inl e \<Rightarrow> Inl e
      | Inr triples \<Rightarrow> Inr (collect_files w triples []))"

section \<open>Detection\<close>

text \<open>Lines 124 to 129: a file whose size cannot be read is passed over.\<close>

fun group_by_size ::
  "world \<Rightarrow> path list \<Rightarrow> (nat \<times> path list) list \<Rightarrow> (nat \<times> path list) list" where
  "group_by_size w [] files_by_size = files_by_size"
| "group_by_size w (filepath # rest) files_by_size =
     (case st_size w filepath of
        None \<Rightarrow> group_by_size w rest files_by_size
      | Some sz \<Rightarrow> group_by_size w rest (dd_append files_by_size sz filepath))"

text \<open>Line 148.\<close>

definition unique_sized_files_count :: "(nat \<times> path list) list \<Rightarrow> nat" where
  "unique_sized_files_count files_by_size =
     length (filter (\<lambda>(sz, paths). length paths < 2) files_by_size)"

text \<open>Lines 171 to 177: the members of one size group are hashed in turn.\<close>

fun hash_paths ::
  "world \<Rightarrow> nat \<Rightarrow> path list \<Rightarrow> (string \<times> path list) list \<Rightarrow> scan_state
     \<Rightarrow> (string \<times> path list) list \<times> scan_state" where
  "hash_paths w total_count [] files_by_hash st = (files_by_hash, st)"
| "hash_paths w total_count (p # ps) files_by_hash st =
     (let (h, out) = compute_file_hash w p;
          n = processed_count st + 1;
          st' = st\<lparr>processed_count := n,
                   trace := trace st @ out @ [Progress_Bar n total_count]\<rparr>
      in hash_paths w total_count ps
           (if h \<noteq> [] then dd_append files_by_hash h p else files_by_hash) st')"

text \<open>Lines 179 to 184.\<close>

fun emit_hash_groups :: "nat \<Rightarrow> (string \<times> path list) list \<Rightarrow> duplicate_group list" where
  "emit_hash_groups sz [] = []"
| "emit_hash_groups sz ((h, final_paths) # rest) =
     (if length final_paths > 1
      then \<lparr>file_size = sz, files = final_paths\<rparr> # emit_hash_groups sz rest
      else emit_hash_groups sz rest)"

text \<open>Lines 156 to 184: the loop over the size groups.\<close>

fun scan_groups ::
  "world \<Rightarrow> nat \<Rightarrow> (nat \<times> path list) list \<Rightarrow> scan_state \<Rightarrow> scan_state" where
  "scan_groups w total_count [] st = st"
| "scan_groups w total_count ((sz, paths) # rest) st =
     (if length paths < 2 then scan_groups w total_count rest st
      else if sz = 0 then
        (let n = processed_count st + length paths in
         scan_groups w total_count rest
           (st\<lparr>duplicates := duplicates st @ [\<lparr>file_size = 0, files = paths\<rparr>],
               processed_count := n,
               trace := trace st @ [Progress_Bar n total_count]\<rparr>))
      else
        (let (files_by_hash, st') = hash_paths w total_count paths [] st in
         scan_groups w total_count rest
           (st'\<lparr>duplicates := duplicates st' @ emit_hash_groups sz files_by_hash\<rparr>)))"

text \<open>Lines 117 to 184, for a list of files that is not empty or empty alike.\<close>

definition detect :: "world \<Rightarrow> path list \<Rightarrow> scan_state" where
  "detect w all_files =
     (let total_count = length all_files;
          files_by_size = group_by_size w all_files [];
          n = unique_sized_files_count files_by_size
      in scan_groups w total_count files_by_size
           \<lparr>processed_count = n, duplicates = [],
            trace = [Progress_Bar n total_count]\<rparr>)"

section \<open>The report\<close>

definition path_name :: "path \<Rightarrow> string" where
  "path_name p = (if p = [] then [] else last p)"

text \<open>Lines 214 to 220: one line for each member, the first and the last marked.\<close>

fun member_lines :: "nat \<Rightarrow> nat \<Rightarrow> path list \<Rightarrow> io list" where
  "member_lines count i [] = []"
| "member_lines count i (fpath # rest) =
     Group_Member (i = 0) (int i = int count - 1) fpath # member_lines count (Suc i) rest"

text \<open>
  Lines 202 to 227. The state is \<^verbatim>\<open>total_files\<close>, \<^verbatim>\<open>total_wasted_bytes\<close> and the trace;
  Python's integers are unbounded, so the byte total is an \<open>int\<close>.
\<close>

fun report_groups :: "duplicate_group list \<Rightarrow> nat \<times> int \<times> io list \<Rightarrow> nat \<times> int \<times> io list" where
  "report_groups [] acc = acc"
| "report_groups (grp # rest) (total_files, total_wasted_bytes, out) =
     (let count = length (files grp); sz = file_size grp in
      if count = 0 then report_groups rest (total_files, total_wasted_bytes, out)
      else
        report_groups rest
          (total_files + count,
           total_wasted_bytes + (int count - 1) * int sz,
           out @ [Group_Header (path_name (hd (files grp))) count]
               @ member_lines count 0 (files grp)
               @ [Tip (path_name (hd (files grp))), Blank_Line]))"

text \<open>Lines 194 to 237.\<close>

definition report :: "duplicate_group list \<Rightarrow> io list" where
  "report dups =
     (let (total_files, total_wasted_bytes, out) = report_groups dups (0, 0, []) in
      [if dups = [] then No_Duplicates_Found else Found_Duplicates]
      @ out
      @ (if dups \<noteq> []
         then [Total_Groups (length dups), Total_Files total_files,
               Total_Wasted total_wasted_bytes]
         else [])
      @ [Blank_Line, Footer])"

definition total_wasted_bytes :: "duplicate_group list \<Rightarrow> int" where
  "total_wasted_bytes dups = fst (snd (report_groups dups (0, 0, [])))"

section \<open>The command\<close>



section \<open>Notions used to state the properties\<close>

text \<open>The value \<^verbatim>\<open>h\<close> of line 172: what \<^verbatim>\<open>compute_file_hash\<close> returns for a path.\<close>

definition digest :: "world \<Rightarrow> path \<Rightarrow> string" where
  "digest w p = fst (compute_file_hash w p)"

text \<open>The value a dictionary holds for a key, the empty list for a key it does not have.\<close>

definition dd_lookup :: "('k \<times> 'v list) list \<Rightarrow> 'k \<Rightarrow> 'v list" where
  "dd_lookup d k = (case map_of d k of None \<Rightarrow> [] | Some vs \<Rightarrow> vs)"

text \<open>Appending every element of a list under its key, in turn.\<close>

fun dd_extend :: "('a \<Rightarrow> 'k) \<Rightarrow> 'a list \<Rightarrow> ('k \<times> 'a list) list \<Rightarrow> ('k \<times> 'a list) list" where
  "dd_extend key [] d = d"
| "dd_extend key (x # xs) d = dd_extend key xs (dd_append d (key x) x)"

text \<open>
  What one pass of the loop over the size groups appends to \<^verbatim>\<open>duplicates\<close>; the
  counter and the trace play no part in it.
\<close>

definition group_duplicates :: "world \<Rightarrow> nat \<times> path list \<Rightarrow> duplicate_group list" where
  "group_duplicates w = (\<lambda>(sz, paths).
     if length paths < 2 then []
     else if sz = 0 then [\<lparr>file_size = 0, files = paths\<rparr>]
     else emit_hash_groups sz
       (fst (hash_paths w 0 paths [] \<lparr>processed_count = 0, duplicates = [], trace = []\<rparr>)))"

text \<open>
  A directory \<^verbatim>\<open>d\<close> of plain files, for the examples: every entry gives a name, what
  \<^verbatim>\<open>stat\<close> returns for it and what reading it returns. The digest of the examples
  prefixes the content, so it is never empty and never collides.
\<close>

definition flat_world :: "(string \<times> nat option \<times> (string + bytes)) list \<Rightarrow> world" where
  "flat_world entries =
     \<lparr>resolve = (\<lambda>s. [s]),
      path_exists = (\<lambda>p. p = [''d'']),
      path_is_dir = (\<lambda>p. p = [''d'']),
      os_walk = (\<lambda>p. Inr [(p, [], map fst entries)]),
      is_symlink = (\<lambda>p. False),
      st_size = (\<lambda>p. case map_of entries (path_name p) of
                          None \<Rightarrow> None | Some (s, c) \<Rightarrow> s),
      open_read = (\<lambda>p. case map_of entries (path_name p) of
                            None \<Rightarrow> Inl ''ENOENT'' | Some (s, c) \<Rightarrow> c),
      sha256_hex = (\<lambda>bs. ''sha:'' @ bs)\<rparr>"

definition example_world :: world where
  "example_world = flat_world
     [(''a.txt'', Some 1, Inr ''X''),
      (''b.txt'', Some 1, Inr ''X''),
      (''c.txt'', Some 1, Inr ''Y''),
      (''e1'', Some 0, Inr []),
      (''e2'', Some 0, Inr []),
      (''u'', Some 1, Inl ''EACCES'')]"

definition example_files :: "path list" where
  "example_files = map (\<lambda>n. [''d'', n]) [''a.txt'', ''b.txt'', ''c.txt'', ''e1'', ''e2'', ''u'']"


text \<open>
  The directory lists one name, and \<^verbatim>\<open>stat\<close> fails for it: the file was removed after
  the walk, or the directory can be listed and not searched.
\<close>

definition vanished_world :: world where
  "vanished_world = flat_world [(''gone'', None, Inl ''ENOENT'')]"

text \<open>The bytes that all copies of a group but one occupy.\<close>

definition wasted_bytes :: "duplicate_group \<Rightarrow> int" where
  "wasted_bytes g = (int (length (files g)) - 1) * int (file_size g)"

text \<open>The last entry of the trace is the progress bar of the current count.\<close>

definition bar_last :: "nat \<Rightarrow> scan_state \<Rightarrow> bool" where
  "bar_last t st \<longleftrightarrow> trace st \<noteq> [] \<and> last (trace st) = Progress_Bar (processed_count st) t"

text \<open>The files of the input whose size is read as zero, in the order of the input.\<close>

definition zero_byte_files :: "world \<Rightarrow> path list \<Rightarrow> path list" where
  "zero_byte_files w all_files = filter (\<lambda>f. st_size w f = Some 0) all_files"

text \<open>
  A directory tree, to say what \<^verbatim>\<open>os.walk\<close> yields. An entry of a directory is a regular
  file with its content, a special file (a FIFO, a socket, a device node), a symbolic
  link to a file or to a directory, or a directory with its own entries.
\<close>

datatype fs_node =
    Regular_File bytes
  | Special_File
  | Link_To_File
  | Link_To_Dir
  | Directory "(string \<times> fs_node) list"

fun is_dir_entry :: "fs_node \<Rightarrow> bool" where
  "is_dir_entry (Directory sub) = True"
| "is_dir_entry Link_To_Dir = True"
| "is_dir_entry _ = False"

fun is_link :: "fs_node \<Rightarrow> bool" where
  "is_link Link_To_File = True"
| "is_link Link_To_Dir = True"
| "is_link _ = False"

fun is_regular :: "fs_node \<Rightarrow> bool" where
  "is_regular (Regular_File bs) = True"
| "is_regular _ = False"

text \<open>
  \<^verbatim>\<open>os.walk(top)\<close> with its default arguments (top-down, links not followed), as the
  library documents it: for each directory one triple of the directory, the names of
  its entries that are directories (a link to a directory is one) and the names of all
  its other entries; then the same for each sub-directory that is not a link, in order.
\<close>

fun walk :: "path \<Rightarrow> (string \<times> fs_node) list \<Rightarrow> walk_triple list"
  and walk_subdirs :: "path \<Rightarrow> (string \<times> fs_node) list \<Rightarrow> walk_triple list" where
  "walk top_dir entries =
     (top_dir, map fst (filter (\<lambda>e. is_dir_entry (snd e)) entries),
           map fst (filter (\<lambda>e. \<not> is_dir_entry (snd e)) entries))
     # walk_subdirs top_dir entries"
| "walk_subdirs top_dir [] = []"
| "walk_subdirs top_dir ((name, Directory sub) # rest) = walk (top_dir @ [name]) sub @ walk_subdirs top_dir rest"
| "walk_subdirs top_dir ((name, _) # rest) = walk_subdirs top_dir rest"

declare walk.simps [simp del]

text \<open>The entry that a path relative to the top names; links are not followed.\<close>

fun node_at :: "(string \<times> fs_node) list \<Rightarrow> path \<Rightarrow> fs_node option" where
  "node_at entries [] = None"
| "node_at entries [name] = map_of entries name"
| "node_at entries (name # rest) =
     (case map_of entries name of
        Some (Directory sub) \<Rightarrow> node_at sub rest
      | _ \<Rightarrow> None)"

text \<open>
  The world of a tree whose top directory is at \<open>top_dir\<close>. \<^verbatim>\<open>stat\<close> reports size 0 for a
  special file.
\<close>

definition tree_world :: "path \<Rightarrow> (string \<times> fs_node) list \<Rightarrow> world" where
  "tree_world top_dir entries =
     \<lparr>resolve = (\<lambda>s. top_dir),
      path_exists = (\<lambda>p. p = top_dir),
      path_is_dir = (\<lambda>p. p = top_dir),
      os_walk = (\<lambda>p. Inr (if p = top_dir then walk top_dir entries else [])),
      is_symlink = (\<lambda>p. take (length top_dir) p = top_dir \<and>
         (case node_at entries (drop (length top_dir) p) of Some n \<Rightarrow> is_link n | None \<Rightarrow> False)),
      st_size = (\<lambda>p. case node_at entries (drop (length top_dir) p) of
                        Some (Regular_File bs) \<Rightarrow> Some (length bs)
                      | Some Special_File \<Rightarrow> Some 0
                      | _ \<Rightarrow> None),
      open_read = (\<lambda>p. case node_at entries (drop (length top_dir) p) of
                        Some (Regular_File bs) \<Rightarrow> Inr bs
                      | _ \<Rightarrow> Inl ''EIO''),
      sha256_hex = (\<lambda>bs. ''sha:'' @ bs)\<rparr>"

definition fifo_tree :: "(string \<times> fs_node) list" where
  "fifo_tree =
     [(''a.txt'', Regular_File ''X''),
      (''pipe'', Special_File),
      (''sock'', Special_File),
      (''link'', Link_To_File),
      (''sub'', Directory [(''b.txt'', Regular_File ''X''), (''up'', Link_To_Dir)])]"

text \<open>No directory of the tree holds a name twice.\<close>

fun wf_node :: "fs_node \<Rightarrow> bool"
  and wf_entries :: "(string \<times> fs_node) list \<Rightarrow> bool" where
  "wf_node (Directory sub) = (distinct (map fst sub) \<and> wf_entries sub)"
| "wf_node _ = True"
| "wf_entries [] = True"
| "wf_entries ((name, n) # rest) = (wf_node n \<and> wf_entries rest)"

text \<open>The paths \<^verbatim>\<open>Path(root) / name\<close> for the names of the third components.\<close>

definition listed :: "walk_triple list \<Rightarrow> path set" where
  "listed triples =
     {root_dir @ [name] | root_dir dirs names name. (root_dir, dirs, names) \<in> set triples \<and> name \<in> set names}"

section \<open>The progress bar\<close>

text \<open>
  \<^verbatim>\<open>print_progress_bar\<close> computes with Python's floats. A float is an IEEE 754 double;
  the values that occur here are not negative, so a float is a rational that a double
  can hold, or positive infinity. \<^verbatim>\<open>current / total\<close> on integers is the quotient rounded
  to the nearest double, ties to even, and raises \<^verbatim>\<open>OverflowError\<close> when that is beyond
  the largest double; a product of floats is rounded the same way and overflows to
  infinity without raising; \<^verbatim>\<open>int\<close> truncates and raises \<^verbatim>\<open>OverflowError\<close> on infinity.
\<close>

datatype py_error = ZeroDivisionError | OverflowError

datatype pyfloat = Finite rat | Infinity

text \<open>\<^verbatim>\<open>int.bit_length\<close>: the number of binary digits of a positive integer.\<close>

function bit_length :: "int \<Rightarrow> nat" where
  "bit_length n = (if n \<le> 0 then 0 else Suc (bit_length (n div 2)))"
  by pat_completeness auto
termination
  by (relation "measure nat") auto

declare bit_length.simps [simp del]



text \<open>The binary exponent of a positive rational: the \<open>e\<close> with \<^verbatim>\<open>2^e <= x < 2^(e+1)\<close>.\<close>

definition ilog2 :: "rat \<Rightarrow> int" where
  "ilog2 x =
     (let (a, b) = quotient_of x;
          e = int (bit_length a) - int (bit_length b)
      in if 2 powi e \<le> x then e else e - 1)"

definition round_half_even :: "rat \<Rightarrow> int" where
  "round_half_even x =
     (let f = \<lfloor>x\<rfloor>; d = x - of_int f
      in if d < 1 / 2 then f else if 1 / 2 < d then f + 1 else if even f then f else f + 1)"

text \<open>
  Rounding to a double: 53 significant bits, the least exponent -1022 (below it the
  spacing stays at that of the subnormal numbers), infinity from \<^verbatim>\<open>2^1024\<close> on.
\<close>

definition round_double :: "rat \<Rightarrow> pyfloat" where
  "round_double x =
     (if x = 0 then Finite 0
      else
        (let e = ilog2 x;
             q = 2 powi (max e (- 1022) - 52);
             r = of_int (round_half_even (x / q)) * q
         in if 2 ^ 1024 \<le> r then Infinity else Finite r))"

definition py_truediv :: "nat \<Rightarrow> nat \<Rightarrow> py_error + rat" where
  "py_truediv a b =
     (if b = 0 then Inl ZeroDivisionError
      else case round_double (of_nat a / of_nat b) of
             Infinity \<Rightarrow> Inl OverflowError
           | Finite r \<Rightarrow> Inr r)"

text \<open>The conversion of the integer operand of a mixed product.\<close>

definition py_float_of_int :: "nat \<Rightarrow> py_error + rat" where
  "py_float_of_int n =
     (case round_double (of_nat n) of Infinity \<Rightarrow> Inl OverflowError | Finite r \<Rightarrow> Inr r)"

definition float_mul :: "rat \<Rightarrow> rat \<Rightarrow> pyfloat" where
  "float_mul a b = round_double (a * b)"

definition py_int :: "pyfloat \<Rightarrow> py_error + int" where
  "py_int x = (case x of Infinity \<Rightarrow> Inl OverflowError | Finite r \<Rightarrow> Inr \<lfloor>r\<rfloor>)"

text \<open>
  \<^verbatim>\<open>str * n\<close>: empty for a negative count; beyond \<^verbatim>\<open>sys.maxsize\<close> (64-bit) the count does
  not fit an index and \<^verbatim>\<open>OverflowError\<close> is raised. Running out of memory is not
  modelled.
\<close>

definition sys_maxsize :: int where
  "sys_maxsize = 2 ^ 63 - 1"

definition py_repeat :: "'a \<Rightarrow> int \<Rightarrow> py_error + 'a list" where
  "py_repeat c n = (if sys_maxsize < n then Inl OverflowError else Inr (replicate (nat n) c))"

text \<open>The line that is written: the bar, the two counts and the percentage.\<close>

datatype cell = Filled | Dash

record progress_line =
  bar :: "cell list"
  shown_current :: nat
  shown_total :: nat
  percentage :: int

text \<open>An exception of one statement ends the function.\<close>

definition and_then :: "'x + 'v \<Rightarrow> ('v \<Rightarrow> 'x + 'r) \<Rightarrow> 'x + 'r" where
  "and_then outcome rest = (case outcome of Inr v \<Rightarrow> rest v | Inl err \<Rightarrow> Inl err)"

text \<open>Lines 71 to 80; \<open>total_count\<close> is the parameter \<^verbatim>\<open>total\<close>.\<close>

definition print_progress_bar :: "nat \<Rightarrow> nat \<Rightarrow> nat \<Rightarrow> py_error + progress_line" where
  "print_progress_bar current total_count bar_length =
     and_then (if total_count > 0 then py_truediv current total_count else Inr 1) (\<lambda>fraction.
     and_then (py_int (float_mul fraction 100)) (\<lambda>percent.
     and_then (py_float_of_int bar_length) (\<lambda>len.
     and_then (py_int (float_mul len fraction)) (\<lambda>filled_length.
     and_then (py_repeat Filled filled_length) (\<lambda>filled.
     and_then (py_repeat Dash (int bar_length - filled_length)) (\<lambda>dashes.
       Inr \<lparr>bar = filled @ dashes, shown_current = current, shown_total = total_count,
            percentage = percent\<rparr>))))))"

section \<open>The reading loop\<close>

lemma read_chunks_append: "read_chunks sha f = sha @ f"
proof (induction sha f rule: read_chunks.induct)
  case (1 sha f)
  show ?case
  proof (cases "take buffer_size f = []")
    case True
    then have "f = []" by (auto simp: buffer_size_def)
    then show ?thesis by (subst read_chunks.simps) simp
  next
    case False
    with "1" have "read_chunks (sha @ take buffer_size f) (drop buffer_size f)
        = (sha @ take buffer_size f) @ drop buffer_size f"
      by simp
    with False show ?thesis by (subst read_chunks.simps) (simp add: Let_def)
  qed
qed

section \<open>Dictionaries: keys and values\<close>

lemma keys_dd_append:
  "map fst (dd_append d k v) = (if k \<in> fst ` set d then map fst d else map fst d @ [k])"
  by (induction d k v rule: dd_append.induct) auto

lemma distinct_keys_dd_append:
  "distinct (map fst d) \<Longrightarrow> distinct (map fst (dd_append d k v))"
  by (simp add: keys_dd_append)

lemma dd_lookup_dd_append:
  "dd_lookup (dd_append d k v) k' = (if k' = k then dd_lookup d k @ [v] else dd_lookup d k')"
  by (induction d k v rule: dd_append.induct) (auto simp: dd_lookup_def)

lemma distinct_keys_dd_extend:
  "distinct (map fst d) \<Longrightarrow> distinct (map fst (dd_extend key xs d))"
  by (induction xs arbitrary: d) (auto simp: distinct_keys_dd_append)

lemma keyset_dd_append: "fst ` set (dd_append d k v) = insert k (fst ` set d)"
  by (induction d k v rule: dd_append.induct) auto

lemma keys_dd_extend:
  "fst ` set (dd_extend key xs d) = fst ` set d \<union> key ` set xs"
proof (induction xs arbitrary: d)
  case Nil
  then show ?case by simp
next
  case (Cons x xs)
  then show ?case by (simp add: keyset_dd_append)
qed

lemma dd_lookup_dd_extend:
  "dd_lookup (dd_extend key xs d) k = dd_lookup d k @ filter (\<lambda>x. key x = k) xs"
  by (induction xs arbitrary: d) (auto simp: dd_lookup_dd_append)

lemma dd_lookup_Nil: "dd_lookup [] k = []"
  by (simp add: dd_lookup_def)

lemma dd_lookup_member:
  "distinct (map fst d) \<Longrightarrow> (k, vs) \<in> set d \<Longrightarrow> dd_lookup d k = vs"
  by (simp add: dd_lookup_def)

lemma dd_extend_member_iff:
  "(k, vs) \<in> set (dd_extend key xs []) \<longleftrightarrow>
     k \<in> key ` set xs \<and> vs = filter (\<lambda>x. key x = k) xs"
proof
  assume m: "(k, vs) \<in> set (dd_extend key xs [])"
  have "distinct (map fst (dd_extend key xs []))"
    by (rule distinct_keys_dd_extend) simp
  with m have "dd_lookup (dd_extend key xs []) k = vs"
    by (simp add: dd_lookup_member)
  then have "vs = filter (\<lambda>x. key x = k) xs"
    by (simp add: dd_lookup_dd_extend dd_lookup_Nil)
  moreover from m have "k \<in> fst ` set (dd_extend key xs [])"
    by force
  then have "k \<in> key ` set xs"
    by (simp add: keys_dd_extend)
  ultimately show "k \<in> key ` set xs \<and> vs = filter (\<lambda>x. key x = k) xs"
    by simp
next
  assume a: "k \<in> key ` set xs \<and> vs = filter (\<lambda>x. key x = k) xs"
  then have "k \<in> fst ` set (dd_extend key xs [])"
    by (simp add: keys_dd_extend)
  then obtain us where m: "(k, us) \<in> set (dd_extend key xs [])"
    by auto
  have "distinct (map fst (dd_extend key xs []))"
    by (rule distinct_keys_dd_extend) simp
  with m have "dd_lookup (dd_extend key xs []) k = us"
    by (simp add: dd_lookup_member)
  then have "us = vs"
    using a by (simp add: dd_lookup_dd_extend dd_lookup_Nil)
  with m show "(k, vs) \<in> set (dd_extend key xs [])"
    by simp
qed

lemma group_by_size_dd_extend:
  "group_by_size w fs d =
     dd_extend (\<lambda>f. the (st_size w f)) (filter (\<lambda>f. st_size w f \<noteq> None) fs) d"
  by (induction fs arbitrary: d) (auto split: option.splits)

lemma hash_paths_fst:
  "fst (hash_paths w t ps fbh st) =
     dd_extend (digest w) (filter (\<lambda>p. digest w p \<noteq> []) ps) fbh"
  by (induction ps arbitrary: fbh st) (auto simp: digest_def Let_def split: prod.splits)

lemma hash_paths_processed_count:
  "processed_count (snd (hash_paths w t ps fbh st)) = processed_count st + length ps"
  by (induction ps arbitrary: fbh st) (auto simp: Let_def split: prod.splits)

lemma hash_paths_duplicates:
  "duplicates (snd (hash_paths w t ps fbh st)) = duplicates st"
  by (induction ps arbitrary: fbh st) (auto simp: Let_def split: prod.splits)

lemma emit_hash_groups_eq:
  "emit_hash_groups sz fbh =
     map (\<lambda>(h, vs). \<lparr>file_size = sz, files = vs\<rparr>) (filter (\<lambda>(h, vs). length vs > 1) fbh)"
  by (induction sz fbh rule: emit_hash_groups.induct) auto

lemma hash_paths_fst_indep:
  "fst (hash_paths w t ps fbh st) = fst (hash_paths w t' ps fbh st')"
  by (simp add: hash_paths_fst)

lemma scan_groups_duplicates:
  "duplicates (scan_groups w t d st) = duplicates st @ concat (map (group_duplicates w) d)"
proof (induction w t d st rule: scan_groups.induct)
  case (1 w t st)
  then show ?case by simp
next
  case (2 w t sz paths rest st)
  show ?case
  proof (cases "length paths < 2")
    case True
    with 2 show ?thesis by (simp add: group_duplicates_def)
  next
    case long: False
    show ?thesis
    proof (cases "sz = 0")
      case True
      with long 2 show ?thesis by (simp add: group_duplicates_def Let_def)
    next
      case False
      obtain fbh st' where h: "hash_paths w t paths [] st = (fbh, st')"
        by (cases "hash_paths w t paths [] st")
      then have d: "duplicates st' = duplicates st"
        using hash_paths_duplicates [of w t paths "[]" st] by simp
      have f: "fbh = fst (hash_paths w 0 paths [] \<lparr>processed_count = 0, duplicates = [], trace = []\<rparr>)"
        using h hash_paths_fst_indep [of w t paths "[]" st] by simp
      from long False h have "duplicates (scan_groups w t ((sz, paths) # rest) st)
          = duplicates (scan_groups w t rest (st'\<lparr>duplicates := duplicates st' @ emit_hash_groups sz fbh\<rparr>))"
        by simp
      also have "\<dots> = (duplicates st' @ emit_hash_groups sz fbh) @ concat (map (group_duplicates w) rest)"
        using "2.IH"(3) [OF long False h [symmetric] refl] by simp
      finally show ?thesis
        using long False d f by (simp add: group_duplicates_def)
    qed
  qed
qed

lemma detect_duplicates:
  "duplicates (detect w fs) = concat (map (group_duplicates w) (group_by_size w fs []))"
  by (simp add: detect_def Let_def scan_groups_duplicates)


lemma dd_extend_groups:
  "(k, vs) \<in> set (dd_extend key xs []) \<longleftrightarrow> vs = filter (\<lambda>x. key x = k) xs \<and> vs \<noteq> []"
proof -
  have "k \<in> key ` set xs \<longleftrightarrow> filter (\<lambda>x. key x = k) xs \<noteq> []"
    by (auto simp: filter_empty_conv)
  then show ?thesis
    by (auto simp: dd_extend_member_iff)
qed

lemma size_group_iff:
  "(sz, paths) \<in> set (group_by_size w fs []) \<longleftrightarrow>
     paths = filter (\<lambda>f. st_size w f = Some sz) fs \<and> paths \<noteq> []"
proof -
  have "filter (\<lambda>x. the (st_size w x) = sz) (filter (\<lambda>f. st_size w f \<noteq> None) fs)
      = filter (\<lambda>f. st_size w f = Some sz) fs"
    by (induction fs) auto
  then show ?thesis
    by (simp add: group_by_size_dd_extend dd_extend_groups)
qed

lemma hash_group_iff:
  "(h, ps) \<in> set (fst (hash_paths w t paths [] st)) \<longleftrightarrow>
     h \<noteq> [] \<and> ps = filter (\<lambda>p. digest w p = h) paths \<and> ps \<noteq> []"
proof -
  have "filter (\<lambda>x. digest w x = h) (filter (\<lambda>p. digest w p \<noteq> []) paths)
      = (if h = [] then [] else filter (\<lambda>p. digest w p = h) paths)"
    by (induction paths) auto
  then show ?thesis
    by (auto simp: hash_paths_fst dd_extend_groups)
qed

lemma emit_hash_groups_iff:
  "g \<in> set (emit_hash_groups sz fbh) \<longleftrightarrow>
     (\<exists>h vs. (h, vs) \<in> set fbh \<and> 1 < length vs \<and> g = \<lparr>file_size = sz, files = vs\<rparr>)"
  by (induction sz fbh rule: emit_hash_groups.induct) auto

lemma group_duplicates_iff:
  "g \<in> set (group_duplicates w (sz, paths)) \<longleftrightarrow>
     2 \<le> length paths \<and>
     (if sz = 0 then g = \<lparr>file_size = 0, files = paths\<rparr>
      else \<exists>h. h \<noteq> [] \<and> g = \<lparr>file_size = sz, files = filter (\<lambda>p. digest w p = h) paths\<rparr>
             \<and> 2 \<le> length (files g))"
  by (auto simp: group_duplicates_def emit_hash_groups_iff hash_group_iff)

lemma detect_group_iff:
  "g \<in> set (duplicates (detect w fs)) \<longleftrightarrow>
     (\<exists>sz. 2 \<le> length (filter (\<lambda>f. st_size w f = Some sz) fs) \<and>
        (if sz = 0 then g = \<lparr>file_size = 0, files = filter (\<lambda>f. st_size w f = Some 0) fs\<rparr>
         else \<exists>h. h \<noteq> [] \<and>
           g = \<lparr>file_size = sz,
                 files = filter (\<lambda>p. digest w p = h) (filter (\<lambda>f. st_size w f = Some sz) fs)\<rparr>
           \<and> 2 \<le> length (files g)))"
  (is "?l \<longleftrightarrow> ?r")
proof
  assume ?l
  then obtain sz paths where m: "(sz, paths) \<in> set (group_by_size w fs [])"
    and g: "g \<in> set (group_duplicates w (sz, paths))"
    by (auto simp: detect_duplicates)
  from m have p: "paths = filter (\<lambda>f. st_size w f = Some sz) fs"
    by (simp add: size_group_iff)
  from g have "2 \<le> length paths \<and>
     (if sz = 0 then g = \<lparr>file_size = 0, files = paths\<rparr>
      else \<exists>h. h \<noteq> [] \<and> g = \<lparr>file_size = sz, files = filter (\<lambda>p. digest w p = h) paths\<rparr>
             \<and> 2 \<le> length (files g))"
    unfolding group_duplicates_iff .
  with p show ?r
    by (intro exI [of _ sz]) (auto split: if_splits)
next
  assume ?r
  then obtain sz where l: "2 \<le> length (filter (\<lambda>f. st_size w f = Some sz) fs)"
    and c: "if sz = 0 then g = \<lparr>file_size = 0, files = filter (\<lambda>f. st_size w f = Some 0) fs\<rparr>
         else \<exists>h. h \<noteq> [] \<and>
           g = \<lparr>file_size = sz,
                 files = filter (\<lambda>p. digest w p = h) (filter (\<lambda>f. st_size w f = Some sz) fs)\<rparr>
           \<and> 2 \<le> length (files g)"
    by blast
  let ?paths = "filter (\<lambda>f. st_size w f = Some sz) fs"
  from l have "?paths \<noteq> []" by auto
  then have m: "(sz, ?paths) \<in> set (group_by_size w fs [])"
    by (simp add: size_group_iff)
  have "g \<in> set (group_duplicates w (sz, ?paths))"
    unfolding group_duplicates_iff using l c by (auto split: if_splits)
  with m show ?l
    unfolding detect_duplicates by (auto intro!: bexI [of _ "(sz, ?paths)"])
qed

section \<open>The examples, evaluated\<close>

lemma example_detect:
  "detect example_world example_files =
     \<lparr>processed_count = 6,
      duplicates =
        [\<lparr>file_size = 1, files = [[''d'', ''a.txt''], [''d'', ''b.txt'']]\<rparr>,
         \<lparr>file_size = 0, files = [[''d'', ''e1''], [''d'', ''e2'']]\<rparr>],
      trace =
        [Progress_Bar 0 6, Open_Read [''d'', ''a.txt''], Progress_Bar 1 6,
         Open_Read [''d'', ''b.txt''], Progress_Bar 2 6,
         Open_Read [''d'', ''c.txt''], Progress_Bar 3 6,
         Open_Read [''d'', ''u''], Warn_Skipping [''d'', ''u''] ''EACCES'',
         Progress_Bar 4 6, Progress_Bar 6 6]\<rparr>"
  by (simp add: detect_def example_world_def example_files_def flat_world_def path_name_def
     unique_sized_files_count_def compute_file_hash_def Let_def read_chunks_append)

lemma example_st_size:
  "st_size example_world [''d'', ''a.txt''] = Some 1"
  "st_size example_world [''d'', ''b.txt''] = Some 1"
  "st_size example_world [''d'', ''c.txt''] = Some 1"
  "st_size example_world [''d'', ''e1''] = Some 0"
  "st_size example_world [''d'', ''e2''] = Some 0"
  "st_size example_world [''d'', ''u''] = Some 1"
  by (simp_all add: example_world_def flat_world_def path_name_def)

lemma example_digest:
  "digest example_world [''d'', ''a.txt''] = ''sha:X''"
  "digest example_world [''d'', ''b.txt''] = ''sha:X''"
  "digest example_world [''d'', ''c.txt''] = ''sha:Y''"
  "digest example_world [''d'', ''u''] = []"
  by (simp_all add: digest_def compute_file_hash_def example_world_def flat_world_def
      path_name_def read_chunks_append)

section \<open>The emitted groups\<close>


lemma detect_group_length:
  "g \<in> set (duplicates (detect w fs)) \<Longrightarrow> 2 \<le> length (files g)"
  by (auto simp: detect_group_iff split: if_splits)

text \<open>
  C3. Every group that the detector emits has at least two members, whatever the files,
  their sizes and the outcome of reading them: a size group is passed over unless it
  has two members, and a hash group is emitted only when it has more than one.
\<close>

theorem no_false_singletons:
  "\<forall>g \<in> set (duplicates (detect w all_files)). 2 \<le> length (files g)"
  using detect_group_length by blast

theorem no_false_singletons_witness:
  "\<lparr>file_size = 1, files = [[''d'', ''a.txt''], [''d'', ''b.txt'']]\<rparr>
     \<in> set (duplicates (detect example_world example_files)) \<and>
   2 \<le> length (files \<lparr>file_size = 1, files = [[''d'', ''a.txt''], [''d'', ''b.txt'']]\<rparr>)"
  using no_false_singletons [of example_world example_files] by (simp add: example_detect)




section \<open>No path in two groups\<close>

lemma hash_groups_distinct_keys:
  "distinct (map fst (fst (hash_paths w t paths [] st)))"
  by (simp add: hash_paths_fst distinct_keys_dd_extend)

lemma size_groups_distinct_keys:
  "distinct (map fst (group_by_size w fs []))"
  by (simp add: group_by_size_dd_extend distinct_keys_dd_extend)

lemma emit_hash_groups_distinct:
  "distinct (emit_hash_groups sz (fst (hash_paths w t paths [] st)))"
proof -
  let ?fbh = "fst (hash_paths w t paths [] st)"
  let ?G = "\<lambda>(h, vs). \<lparr>file_size = sz, files = vs\<rparr>"
  have d: "distinct ?fbh"
    using hash_groups_distinct_keys [of w t paths st] by (simp add: distinct_map)
  have "inj_on ?G (set ?fbh)"
  proof (rule inj_onI)
    fix x y
    assume x: "x \<in> set ?fbh" and y: "y \<in> set ?fbh" and e: "?G x = ?G y"
    obtain h vs where xx: "x = (h, vs)" by (cases x)
    obtain h' vs' where yy: "y = (h', vs')" by (cases y)
    from e xx yy have v: "vs = vs'" by simp
    from x xx have "(h, vs) \<in> set ?fbh" by simp
    then have a: "vs = filter (\<lambda>p. digest w p = h) paths" "vs \<noteq> []"
      unfolding hash_group_iff by blast+
    from y yy have "(h', vs') \<in> set ?fbh" by simp
    then have b: "vs' = filter (\<lambda>p. digest w p = h') paths"
      unfolding hash_group_iff by blast
    from a(2) obtain p where p: "p \<in> set vs" by (cases vs) auto
    from p a(1) have "p \<in> set (filter (\<lambda>p. digest w p = h) paths)" by simp
    then have "digest w p = h" by simp
    moreover from p v b have "p \<in> set (filter (\<lambda>p. digest w p = h') paths)" by simp
    then have "digest w p = h'" by simp
    ultimately show "x = y" using v xx yy by simp
  qed
  then have "inj_on ?G (set (filter (\<lambda>(h, vs). 1 < length vs) ?fbh))"
    by (rule inj_on_subset) auto
  with d show ?thesis
    by (simp add: emit_hash_groups_eq distinct_map)
qed

lemma group_duplicates_distinct: "distinct (group_duplicates w e)"
  by (cases e) (simp add: group_duplicates_def emit_hash_groups_distinct)

lemma group_duplicates_file_size:
  "g \<in> set (group_duplicates w (sz, paths)) \<Longrightarrow> file_size g = sz"
  by (auto simp: group_duplicates_iff split: if_splits)

lemma distinct_concat_by_key:
  assumes "distinct (map fst d)"
    and "\<And>e. e \<in> set d \<Longrightarrow> distinct (G e)"
    and "\<And>e g. e \<in> set d \<Longrightarrow> g \<in> set (G e) \<Longrightarrow> tag g = fst e"
  shows "distinct (concat (map G d))"
  using assms
proof (induction d)
  case Nil
  then show ?case by simp
next
  case (Cons e d)
  have "set (G e) \<inter> set (concat (map G d)) = {}"
  proof (rule ccontr)
    assume "set (G e) \<inter> set (concat (map G d)) \<noteq> {}"
    then obtain g e' where g: "g \<in> set (G e)" and e': "e' \<in> set d" and g': "g \<in> set (G e')"
      by auto
    from g Cons.prems(3) [of e g] have "tag g = fst e" by simp
    moreover from e' g' Cons.prems(3) [of e' g] have "tag g = fst e'" by simp
    ultimately have "fst e = fst e'" by simp
    with e' have "fst e \<in> fst ` set d" by (simp add: image_iff) blast
    with Cons.prems(1) show False by simp
  qed
  moreover have "distinct (G e)" using Cons.prems(2) by simp
  moreover have "distinct (concat (map G d))"
    using Cons by simp
  ultimately show ?case by simp
qed

lemma detect_groups_distinct: "distinct (duplicates (detect w fs))"
  unfolding detect_duplicates
proof (rule distinct_concat_by_key [where tag = file_size])
  show "distinct (map fst (group_by_size w fs []))"
    by (rule size_groups_distinct_keys)
next
  fix e
  show "distinct (group_duplicates w e)"
    by (rule group_duplicates_distinct)
next
  fix e g
  assume "g \<in> set (group_duplicates w e)"
  then show "file_size g = fst e"
    by (cases e) (simp add: group_duplicates_file_size)
qed

lemma detect_group_of_member:
  assumes "g \<in> set (duplicates (detect w fs))" and "p \<in> set (files g)"
  shows "\<exists>sz. st_size w p = Some sz \<and> p \<in> set fs \<and>
     g = (if sz = 0 then \<lparr>file_size = 0, files = filter (\<lambda>f. st_size w f = Some 0) fs\<rparr>
          else \<lparr>file_size = sz,
                files = filter (\<lambda>q. digest w q = digest w p) (filter (\<lambda>f. st_size w f = Some sz) fs)\<rparr>)
     \<and> (sz \<noteq> 0 \<longrightarrow> digest w p \<noteq> [])"
proof -
  from assms(1) obtain sz where
    c: "if sz = 0 then g = \<lparr>file_size = 0, files = filter (\<lambda>f. st_size w f = Some 0) fs\<rparr>
         else \<exists>h. h \<noteq> [] \<and>
           g = \<lparr>file_size = sz,
                 files = filter (\<lambda>p. digest w p = h) (filter (\<lambda>f. st_size w f = Some sz) fs)\<rparr>
           \<and> 2 \<le> length (files g)"
    unfolding detect_group_iff by blast
  show ?thesis
  proof (cases "sz = 0")
    case True
    with c assms(2) show ?thesis by (intro exI [of _ 0]) auto
  next
    case False
    with c obtain h where h: "h \<noteq> []"
      and g: "g = \<lparr>file_size = sz,
                 files = filter (\<lambda>p. digest w p = h) (filter (\<lambda>f. st_size w f = Some sz) fs)\<rparr>"
      by auto
    with assms(2) have "digest w p = h" "st_size w p = Some sz" "p \<in> set fs" by auto
    with False h g show ?thesis by (intro exI [of _ sz]) auto
  qed
qed

lemma detect_groups_share_no_path:
  assumes "g1 \<in> set (duplicates (detect w fs))" and "g2 \<in> set (duplicates (detect w fs))"
    and "p \<in> set (files g1)" and "p \<in> set (files g2)"
  shows "g1 = g2"
  using detect_group_of_member [OF assms(1) assms(3)] detect_group_of_member [OF assms(2) assms(4)]
  by auto

text \<open>
  C9. For every input, two emitted groups at different positions of the result share no
  path: the size keys split the files, the digest keys split each size group, and no
  group is emitted twice.
\<close>

theorem groups_pairwise_disjoint:
  "i < j \<Longrightarrow> j < length (duplicates (detect w all_files)) \<Longrightarrow>
     set (files (duplicates (detect w all_files) ! i))
       \<inter> set (files (duplicates (detect w all_files) ! j)) = {}"
proof (rule ccontr)
  let ?dups = "duplicates (detect w all_files)"
  assume ij: "i < j" "j < length ?dups"
    and "set (files (?dups ! i)) \<inter> set (files (?dups ! j)) \<noteq> {}"
  then obtain p where p: "p \<in> set (files (?dups ! i))" "p \<in> set (files (?dups ! j))"
    by auto
  from ij have "?dups ! i \<in> set ?dups" "?dups ! j \<in> set ?dups" by simp_all
  with p have "?dups ! i = ?dups ! j" by (rule detect_groups_share_no_path [rotated 2])
  with ij detect_groups_distinct [of w all_files] show False
    by (simp add: nth_eq_iff_index_eq)
qed

theorem groups_pairwise_disjoint_witness:
  "(0::nat) < 1 \<and> 1 < length (duplicates (detect example_world example_files)) \<and>
   set (files (duplicates (detect example_world example_files) ! 0))
       \<inter> set (files (duplicates (detect example_world example_files) ! 1)) = {}"
  using groups_pairwise_disjoint [of 0 1 example_world example_files]
  by (simp add: example_detect)

section \<open>The progress counter\<close>

lemma scan_groups_processed_count:
  "processed_count (scan_groups w t d st) =
     processed_count st + sum_list (map (\<lambda>(sz, paths). if length paths < 2 then 0 else length paths) d)"
proof (induction w t d st rule: scan_groups.induct)
  case (1 w t st)
  then show ?case by simp
next
  case (2 w t sz paths rest st)
  show ?case
  proof (cases "length paths < 2")
    case True
    with 2 show ?thesis by simp
  next
    case long: False
    show ?thesis
    proof (cases "sz = 0")
      case True
      with long 2 show ?thesis by (simp add: Let_def)
    next
      case False
      obtain fbh st' where h: "hash_paths w t paths [] st = (fbh, st')"
        by (cases "hash_paths w t paths [] st")
      then have p: "processed_count st' = processed_count st + length paths"
        using hash_paths_processed_count [of w t paths "[]" st] by simp
      from long False h show ?thesis
        using "2.IH"(3) [OF long False h [symmetric] refl] p by simp
    qed
  qed
qed

lemma unique_plus_rest:
  "(\<forall>e \<in> set d. snd e \<noteq> []) \<Longrightarrow>
   unique_sized_files_count d
     + sum_list (map (\<lambda>(sz, paths). if length paths < 2 then 0 else length paths) d)
   = length (concat (map snd d))"
proof (induction d)
  case Nil
  then show ?case by (simp add: unique_sized_files_count_def)
next
  case (Cons e d)
  obtain sz paths where e: "e = (sz, paths)" by (cases e)
  with Cons.prems have "paths \<noteq> []" by simp
  then have "length paths < 2 \<longleftrightarrow> length paths = 1"
    by (cases paths) auto
  with Cons e show ?case
    by (auto simp: unique_sized_files_count_def)
qed

lemma members_length_dd_append:
  "length (concat (map snd (dd_append d k v))) = Suc (length (concat (map snd d)))"
  by (induction d k v rule: dd_append.induct) auto

lemma members_length_dd_extend:
  "length (concat (map snd (dd_extend key xs d))) = length (concat (map snd d)) + length xs"
  by (induction xs arbitrary: d) (auto simp: members_length_dd_append)

lemma size_groups_nonempty: "e \<in> set (group_by_size w fs []) \<Longrightarrow> snd e \<noteq> []"
  by (cases e) (simp add: size_group_iff)

lemma detect_processed_count:
  "processed_count (detect w fs) = length (filter (\<lambda>f. st_size w f \<noteq> None) fs)"
proof -
  let ?d = "group_by_size w fs []"
  have "processed_count (detect w fs) = unique_sized_files_count ?d
     + sum_list (map (\<lambda>(sz, paths). if length paths < 2 then 0 else length paths) ?d)"
    by (simp add: detect_def Let_def scan_groups_processed_count)
  also have "\<dots> = length (concat (map snd ?d))"
    by (rule unique_plus_rest) (simp add: size_groups_nonempty)
  also have "\<dots> = length (filter (\<lambda>f. st_size w f \<noteq> None) fs)"
    by (simp add: group_by_size_dd_extend members_length_dd_extend)
  finally show ?thesis .
qed

lemma detect_processed_count_all:
  "(\<forall>f \<in> set fs. st_size w f \<noteq> None) \<Longrightarrow> processed_count (detect w fs) = length fs"
  by (simp add: detect_processed_count)

lemma detect_processed_count_le: "processed_count (detect w fs) \<le> length fs"
  by (simp add: detect_processed_count)

lemma vanished_enumerated:
  "enumerate_files vanished_world [''d''] = Inr [[''d'', ''gone'']]"
  by (simp add: enumerate_files_def vanished_world_def flat_world_def)

text \<open>
  C2. The claim is that the counter ends at the number of enumerated files for every
  input, files whose size cannot be read included. The counter ends at the number of
  files whose size could be read (\<open>detect_processed_count\<close>): a file for which
  \<^verbatim>\<open>stat\<close> raises is in no size group, and neither line 148 nor the loop counts it.
  With one enumerated file that has vanished before \<^verbatim>\<open>stat\<close>, the counter ends at 0
  of 1, and the only progress bar drawn is the first one.
\<close>

theorem stat_failure_not_counted:
  "enumerate_files vanished_world [''d''] = Inr [[''d'', ''gone'']] \<and>
   processed_count (detect vanished_world [[''d'', ''gone'']]) = 0 \<and>
   trace (detect vanished_world [[''d'', ''gone'']]) = [Progress_Bar 0 1]"
proof (intro conjI)
  show "enumerate_files vanished_world [''d''] = Inr [[''d'', ''gone'']]"
    by (rule vanished_enumerated)
  show "processed_count (detect vanished_world [[''d'', ''gone'']]) = 0"
    by (simp add: detect_processed_count vanished_world_def flat_world_def path_name_def)
  show "trace (detect vanished_world [[''d'', ''gone'']]) = [Progress_Bar 0 1]"
    by (simp add: detect_def unique_sized_files_count_def vanished_world_def flat_world_def
        path_name_def)
qed

section \<open>The totals of the report\<close>

lemma report_groups_wasted:
  "(\<forall>g \<in> set gs. files g \<noteq> []) \<Longrightarrow>
   fst (snd (report_groups gs (tf, tw, out))) = tw + sum_list (map wasted_bytes gs)"
  by (induction gs arbitrary: tf tw out) (auto simp: Let_def wasted_bytes_def)

lemma total_wasted_bytes_sum:
  "(\<forall>g \<in> set gs. files g \<noteq> []) \<Longrightarrow> total_wasted_bytes gs = sum_list (map wasted_bytes gs)"
  by (simp add: total_wasted_bytes_def report_groups_wasted)

lemma report_total_wasted:
  "dups \<noteq> [] \<Longrightarrow> Total_Wasted (total_wasted_bytes dups) \<in> set (report dups)"
  by (cases "report_groups dups (0, 0, [])") (simp add: report_def total_wasted_bytes_def)

lemma detect_groups_nonempty:
  "g \<in> set (duplicates (detect w fs)) \<Longrightarrow> files g \<noteq> []"
  using detect_group_length [of g w fs] by auto

text \<open>
  C8. For the groups that a scan emits, the byte total that the report loop adds up,
  and prints when there is a group, is the sum over the groups of (members - 1) times
  size, in exact integers; and each group in turn adds exactly that product to the
  running total.
\<close>

theorem wasted_space_formula:
  "total_wasted_bytes (duplicates (detect w all_files))
     = sum_list (map wasted_bytes (duplicates (detect w all_files))) \<and>
   (duplicates (detect w all_files) \<noteq> [] \<longrightarrow>
      Total_Wasted (sum_list (map wasted_bytes (duplicates (detect w all_files))))
        \<in> set (report (duplicates (detect w all_files)))) \<and>
   (\<forall>k < length (duplicates (detect w all_files)).
      total_wasted_bytes (take (Suc k) (duplicates (detect w all_files)))
        = total_wasted_bytes (take k (duplicates (detect w all_files)))
          + wasted_bytes (duplicates (detect w all_files) ! k))"
proof -
  define dups where "dups = duplicates (detect w all_files)"
  have n: "\<forall>g \<in> set dups. files g \<noteq> []"
    unfolding dups_def using detect_groups_nonempty by blast
  then have s: "total_wasted_bytes dups = sum_list (map wasted_bytes dups)"
    by (rule total_wasted_bytes_sum)
  have r: "Total_Wasted (sum_list (map wasted_bytes dups)) \<in> set (report dups)" if "dups \<noteq> []"
    using that report_total_wasted [of dups] s by simp
  have t: "total_wasted_bytes (take (Suc k) dups)
      = total_wasted_bytes (take k dups) + wasted_bytes (dups ! k)" if "k < length dups" for k
  proof -
    have "\<forall>g \<in> set (take (Suc k) dups). files g \<noteq> []" "\<forall>g \<in> set (take k dups). files g \<noteq> []"
      using n by (auto dest: in_set_takeD)
    then show ?thesis
      using that by (simp add: total_wasted_bytes_sum take_Suc_conv_app_nth)
  qed
  from s r t show ?thesis
    unfolding dups_def by blast
qed

lemma example_duplicates:
  "duplicates (detect example_world example_files) =
     [\<lparr>file_size = 1, files = [[''d'', ''a.txt''], [''d'', ''b.txt'']]\<rparr>,
      \<lparr>file_size = 0, files = [[''d'', ''e1''], [''d'', ''e2'']]\<rparr>]"
  by (simp add: example_detect)

theorem wasted_space_formula_witness:
  "duplicates (detect example_world example_files) \<noteq> [] \<and>
   total_wasted_bytes (duplicates (detect example_world example_files)) = 1 \<and>
   Total_Wasted 1 \<in> set (report (duplicates (detect example_world example_files))) \<and>
   (1::nat) < length (duplicates (detect example_world example_files)) \<and>
   total_wasted_bytes (take (Suc 1) (duplicates (detect example_world example_files)))
     = total_wasted_bytes (take 1 (duplicates (detect example_world example_files)))
       + wasted_bytes (duplicates (detect example_world example_files) ! 1)"
proof -
  let ?d = "duplicates (detect example_world example_files)"
  note t = wasted_space_formula [of example_world example_files]
  have n: "?d \<noteq> []" and l: "(1::nat) < length ?d"
    by (simp_all add: example_duplicates)
  have s: "sum_list (map wasted_bytes ?d) = 1"
    by (simp add: example_duplicates wasted_bytes_def)
  from t s have a: "total_wasted_bytes ?d = 1" by simp
  from t n s have b: "Total_Wasted 1 \<in> set (report ?d)" by simp
  from t l have c: "total_wasted_bytes (take (Suc 1) ?d)
      = total_wasted_bytes (take 1 ?d) + wasted_bytes (?d ! 1)" by blast
  from n a b l c show ?thesis by blast
qed

section \<open>The exit status\<close>

lemma collect_names_frame:
  "collect_names (w\<lparr>st_size := s, open_read := r\<rparr>) d names acc = collect_names w d names acc"
  by (induction names arbitrary: acc) (simp_all add: Let_def)

lemma collect_files_frame:
  "collect_files (w\<lparr>st_size := s, open_read := r\<rparr>) triples acc = collect_files w triples acc"
  by (induction triples arbitrary: acc) (auto simp: collect_names_frame)

lemma enumerate_files_frame:
  "enumerate_files (w\<lparr>st_size := s, open_read := r\<rparr>) d = enumerate_files w d"
  by (simp add: enumerate_files_def collect_files_frame split: sum.splits)






section \<open>Files that cannot be read\<close>

lemma hash_groups_without:
  "digest w p = [] \<Longrightarrow>
   fst (hash_paths w t paths fbh st) = fst (hash_paths w t' (removeAll p paths) fbh st')"
proof -
  assume "digest w p = []"
  then have "filter (\<lambda>q. digest w q \<noteq> []) (removeAll p paths) = filter (\<lambda>q. digest w q \<noteq> []) paths"
    by (induction paths) auto
  then show ?thesis by (simp add: hash_paths_fst)
qed

lemma hash_groups_total_length:
  "length (concat (map snd (fst (hash_paths w t paths [] st)))) \<le> length paths"
  by (simp add: hash_paths_fst members_length_dd_extend)

lemma emit_hash_groups_short:
  "length (concat (map snd fbh)) < 2 \<Longrightarrow> emit_hash_groups sz fbh = []"
proof (induction sz fbh rule: emit_hash_groups.induct)
  case (1 sz)
  then show ?case by simp
next
  case (2 sz h final_paths rest)
  then show ?case by auto
qed

lemma scan_single_group:
  "sz \<noteq> 0 \<Longrightarrow>
   duplicates (scan_groups w t [(sz, paths)] st)
     = duplicates st @ emit_hash_groups sz (fst (hash_paths w t paths [] st))"
proof -
  assume sz: "sz \<noteq> 0"
  show ?thesis
  proof (cases "length paths < 2")
    case True
    with hash_groups_total_length [of w t paths st]
    have "length (concat (map snd (fst (hash_paths w t paths [] st)))) < 2" by simp
    then have "emit_hash_groups sz (fst (hash_paths w t paths [] st)) = []"
      by (rule emit_hash_groups_short)
    with True show ?thesis by simp
  next
    case False
    obtain fbh st' where h: "hash_paths w t paths [] st = (fbh, st')"
      by (cases "hash_paths w t paths [] st")
    then have "duplicates st' = duplicates st"
      using hash_paths_duplicates [of w t paths "[]" st] by simp
    with False sz h show ?thesis by simp
  qed
qed

text \<open>
  C5. Let \<^verbatim>\<open>compute_file_hash\<close> return the empty string for a file \<open>p\<close>. Then \<open>p\<close> is a
  member of no hash group of its size group, whatever the other members are (so two
  unreadable files never match each other); the hash groups, and the groups emitted for
  the size group, are the ones that the other members alone would give; and \<open>p\<close>, when
  its size is not zero, is a member of no group of the whole scan.
\<close>

theorem skip_isolation:
  assumes "fst (compute_file_hash w p) = []"
  shows "(\<forall>e \<in> set (fst (hash_paths w t paths [] st)). p \<notin> set (snd e)) \<and>
     fst (hash_paths w t paths [] st) = fst (hash_paths w t (removeAll p paths) [] st) \<and>
     (sz \<noteq> 0 \<longrightarrow>
        duplicates (scan_groups w t [(sz, paths)] st)
          = duplicates (scan_groups w t [(sz, removeAll p paths)] st)) \<and>
     (sz \<noteq> 0 \<and> st_size w p = Some sz \<longrightarrow>
        (\<forall>g \<in> set (duplicates (detect w all_files)). p \<notin> set (files g)))"
proof (intro conjI impI ballI)
  from assms have d: "digest w p = []" by (simp add: digest_def)
  show "p \<notin> set (snd e)" if "e \<in> set (fst (hash_paths w t paths [] st))" for e
  proof
    assume m: "p \<in> set (snd e)"
    obtain h ps where e: "e = (h, ps)" by (cases e)
    with that have "(h, ps) \<in> set (fst (hash_paths w t paths [] st))" by simp
    then have "h \<noteq> []" "ps = filter (\<lambda>q. digest w q = h) paths"
      unfolding hash_group_iff by blast+
    with m e d show False by simp
  qed
  show g: "fst (hash_paths w t paths [] st) = fst (hash_paths w t (removeAll p paths) [] st)"
    using d by (rule hash_groups_without)
  show "duplicates (scan_groups w t [(sz, paths)] st)
      = duplicates (scan_groups w t [(sz, removeAll p paths)] st)" if "sz \<noteq> 0"
  proof -
    have "duplicates (scan_groups w t [(sz, paths)] st)
        = duplicates st @ emit_hash_groups sz (fst (hash_paths w t paths [] st))"
      by (rule scan_single_group [OF that])
    also have "\<dots> = duplicates st @ emit_hash_groups sz (fst (hash_paths w t (removeAll p paths) [] st))"
      using g by simp
    also have "\<dots> = duplicates (scan_groups w t [(sz, removeAll p paths)] st)"
      by (rule scan_single_group [OF that, symmetric])
    finally show ?thesis .
  qed
  show "p \<notin> set (files g)"
    if "sz \<noteq> 0 \<and> st_size w p = Some sz" and "g \<in> set (duplicates (detect w all_files))" for g
  proof
    assume "p \<in> set (files g)"
    with that(2) obtain sz' where "st_size w p = Some sz'" "sz' \<noteq> 0 \<longrightarrow> digest w p \<noteq> []"
      using detect_group_of_member [of g w all_files p] by blast
    with that(1) d show False by simp
  qed
qed


lemma example_unreadable: "fst (compute_file_hash example_world [''d'', ''u'']) = []"
  by (simp add: compute_file_hash_def example_world_def flat_world_def path_name_def)

lemma example_hash_groups:
  "fst (hash_paths example_world 6
         [[''d'', ''a.txt''], [''d'', ''b.txt''], [''d'', ''c.txt''], [''d'', ''u'']] []
         \<lparr>processed_count = 0, duplicates = [], trace = []\<rparr>)
     = [(''sha:X'', [[''d'', ''a.txt''], [''d'', ''b.txt'']]), (''sha:Y'', [[''d'', ''c.txt'']])]"
  by (simp only: hash_paths_fst) (simp add: example_digest)

theorem skip_isolation_witness:
  "fst (compute_file_hash example_world [''d'', ''u'']) = [] \<and>
   (''sha:X'', [[''d'', ''a.txt''], [''d'', ''b.txt'']])
     \<in> set (fst (hash_paths example_world 6
         [[''d'', ''a.txt''], [''d'', ''b.txt''], [''d'', ''c.txt''], [''d'', ''u'']] []
         \<lparr>processed_count = 0, duplicates = [], trace = []\<rparr>)) \<and>
   [''d'', ''u''] \<notin> set (snd (''sha:X'', [[''d'', ''a.txt''], [''d'', ''b.txt'']])) \<and>
   fst (hash_paths example_world 6
         [[''d'', ''a.txt''], [''d'', ''b.txt''], [''d'', ''c.txt''], [''d'', ''u'']] []
         \<lparr>processed_count = 0, duplicates = [], trace = []\<rparr>)
     = fst (hash_paths example_world 6
         [[''d'', ''a.txt''], [''d'', ''b.txt''], [''d'', ''c.txt'']] []
         \<lparr>processed_count = 0, duplicates = [], trace = []\<rparr>) \<and>
   duplicates (scan_groups example_world 6
         [(1, [[''d'', ''a.txt''], [''d'', ''b.txt''], [''d'', ''c.txt''], [''d'', ''u'']])]
         \<lparr>processed_count = 0, duplicates = [], trace = []\<rparr>)
     = duplicates (scan_groups example_world 6
         [(1, [[''d'', ''a.txt''], [''d'', ''b.txt''], [''d'', ''c.txt'']])]
         \<lparr>processed_count = 0, duplicates = [], trace = []\<rparr>) \<and>
   st_size example_world [''d'', ''u''] = Some 1 \<and>
   \<lparr>file_size = 1, files = [[''d'', ''a.txt''], [''d'', ''b.txt'']]\<rparr>
     \<in> set (duplicates (detect example_world example_files)) \<and>
   [''d'', ''u''] \<notin> set (files \<lparr>file_size = 1, files = [[''d'', ''a.txt''], [''d'', ''b.txt'']]\<rparr>)"
proof -
  let ?P = "[[''d'', ''a.txt''], [''d'', ''b.txt''], [''d'', ''c.txt''], [''d'', ''u'']]"
  let ?st = "\<lparr>processed_count = 0, duplicates = [], trace = []\<rparr>"
  have r: "removeAll [''d'', ''u''] ?P = [[''d'', ''a.txt''], [''d'', ''b.txt''], [''d'', ''c.txt'']]"
    by simp
  note t = skip_isolation [OF example_unreadable, of 6 ?P ?st 1 example_files]
  have m: "(''sha:X'', [[''d'', ''a.txt''], [''d'', ''b.txt'']])
      \<in> set (fst (hash_paths example_world 6 ?P [] ?st))"
    unfolding example_hash_groups by simp
  with t have a: "[''d'', ''u''] \<notin> set (snd (''sha:X'', [[''d'', ''a.txt''], [''d'', ''b.txt'']]))"
    by blast
  from t have b: "fst (hash_paths example_world 6 ?P [] ?st)
      = fst (hash_paths example_world 6 (removeAll [''d'', ''u''] ?P) [] ?st)"
    by blast
  from t have c: "duplicates (scan_groups example_world 6 [(1, ?P)] ?st)
      = duplicates (scan_groups example_world 6 [(1, removeAll [''d'', ''u''] ?P)] ?st)"
    by simp
  have g: "\<lparr>file_size = 1, files = [[''d'', ''a.txt''], [''d'', ''b.txt'']]\<rparr>
      \<in> set (duplicates (detect example_world example_files))"
    by (simp add: example_duplicates)
  with t example_st_size(6)
  have d: "[''d'', ''u''] \<notin> set (files \<lparr>file_size = 1, files = [[''d'', ''a.txt''], [''d'', ''b.txt'']]\<rparr>)"
    by blast
  from example_unreadable m a b c example_st_size(6) g d show ?thesis
    unfolding r by blast
qed

section \<open>The trace of a scan\<close>

lemma compute_file_hash_opens:
  "Open_Read q \<in> set (snd (compute_file_hash w p)) \<longleftrightarrow> q = p"
  by (auto simp: compute_file_hash_def split: sum.splits)

lemma hash_paths_trace:
  "\<exists>ext. trace (snd (hash_paths w t ps fbh st)) = trace st @ ext \<and>
     (\<forall>q. Open_Read q \<in> set ext \<longleftrightarrow> q \<in> set ps)"
proof (induction ps arbitrary: fbh st)
  case Nil
  then show ?case by simp
next
  case (Cons p ps)
  obtain h out where c: "compute_file_hash w p = (h, out)"
    by (cases "compute_file_hash w p")
  then have o: "\<And>q. Open_Read q \<in> set out \<longleftrightarrow> q = p"
    using compute_file_hash_opens [of _ w p] by simp
  let ?st' = "st\<lparr>processed_count := processed_count st + 1,
      trace := trace st @ out @ [Progress_Bar (processed_count st + 1) t]\<rparr>"
  let ?fbh' = "if h \<noteq> [] then dd_append fbh h p else fbh"
  from Cons [of ?fbh' ?st'] obtain ext where
    e: "trace (snd (hash_paths w t ps ?fbh' ?st')) = trace ?st' @ ext"
      "\<forall>q. Open_Read q \<in> set ext \<longleftrightarrow> q \<in> set ps"
    by blast
  have "hash_paths w t (p # ps) fbh st = hash_paths w t ps ?fbh' ?st'"
    using c by (simp add: Let_def)
  with e o show ?case
    by (intro exI [of _ "out @ [Progress_Bar (processed_count st + 1) t] @ ext"]) auto
qed

lemma hash_paths_bar_last:
  "bar_last t st \<Longrightarrow> bar_last t (snd (hash_paths w t ps fbh st))"
proof (induction ps arbitrary: fbh st)
  case Nil
  then show ?case by simp
next
  case (Cons p ps)
  obtain h out where c: "compute_file_hash w p = (h, out)"
    by (cases "compute_file_hash w p")
  let ?st' = "st\<lparr>processed_count := processed_count st + 1,
      trace := trace st @ out @ [Progress_Bar (processed_count st + 1) t]\<rparr>"
  let ?fbh' = "if h \<noteq> [] then dd_append fbh h p else fbh"
  have "bar_last t ?st'" by (simp add: bar_last_def)
  then have "bar_last t (snd (hash_paths w t ps ?fbh' ?st'))" by (rule Cons.IH)
  moreover have "hash_paths w t (p # ps) fbh st = hash_paths w t ps ?fbh' ?st'"
    using c by (simp add: Let_def)
  ultimately show ?case by simp
qed

lemma scan_groups_append:
  "scan_groups w t (d1 @ d2) st = scan_groups w t d2 (scan_groups w t d1 st)"
proof (induction w t d1 st rule: scan_groups.induct)
  case (1 w t st)
  then show ?case by simp
next
  case (2 w t sz paths rest st)
  show ?case
  proof (cases "length paths < 2")
    case True
    with 2 show ?thesis by simp
  next
    case long: False
    show ?thesis
    proof (cases "sz = 0")
      case True
      with long 2 show ?thesis by (simp add: Let_def)
    next
      case False
      obtain fbh st' where h: "hash_paths w t paths [] st = (fbh, st')"
        by (cases "hash_paths w t paths [] st")
      from long False h show ?thesis
        using "2.IH"(3) [OF long False h [symmetric] refl] by simp
    qed
  qed
qed

lemma scan_one_trace:
  "\<exists>ext. trace (scan_groups w t [(sz, paths)] st) = trace st @ ext \<and>
     (\<forall>q. Open_Read q \<in> set ext \<longleftrightarrow> 2 \<le> length paths \<and> sz \<noteq> 0 \<and> q \<in> set paths)"
proof (cases "length paths < 2")
  case True
  then show ?thesis by simp
next
  case long: False
  show ?thesis
  proof (cases "sz = 0")
    case True
    with long show ?thesis by (simp add: Let_def)
  next
    case False
    obtain fbh st' where h: "hash_paths w t paths [] st = (fbh, st')"
      by (cases "hash_paths w t paths [] st")
    from hash_paths_trace [of w t paths "[]" st] h obtain ext where
      "trace st' = trace st @ ext" "\<forall>q. Open_Read q \<in> set ext \<longleftrightarrow> q \<in> set paths"
      by auto
    with long False h show ?thesis by auto
  qed
qed

lemma scan_one_bar_last:
  "bar_last t st \<Longrightarrow> bar_last t (scan_groups w t [(sz, paths)] st)"
proof (cases "length paths < 2")
  case True
  then show "bar_last t st \<Longrightarrow> ?thesis" by simp
next
  case long: False
  assume b: "bar_last t st"
  show ?thesis
  proof (cases "sz = 0")
    case True
    with long show ?thesis by (simp add: Let_def bar_last_def)
  next
    case False
    obtain fbh st' where h: "hash_paths w t paths [] st = (fbh, st')"
      by (cases "hash_paths w t paths [] st")
    from hash_paths_bar_last [OF b, of w paths "[]"] h have "bar_last t st'" by simp
    with long False h show ?thesis by (simp add: bar_last_def)
  qed
qed

lemma scan_groups_Cons:
  "scan_groups w t (e # d) st = scan_groups w t d (scan_groups w t [e] st)"
  using scan_groups_append [of w t "[e]" d st] by simp

lemma scan_groups_trace:
  "\<exists>ext. trace (scan_groups w t d st) = trace st @ ext \<and>
     (\<forall>q. Open_Read q \<in> set ext \<longleftrightarrow>
        (\<exists>sz paths. (sz, paths) \<in> set d \<and> 2 \<le> length paths \<and> sz \<noteq> 0 \<and> q \<in> set paths))"
proof (induction d arbitrary: st)
  case Nil
  then show ?case by simp
next
  case (Cons e d)
  obtain sz paths where e: "e = (sz, paths)" by (cases e)
  let ?st1 = "scan_groups w t [(sz, paths)] st"
  from scan_one_trace [of w t sz paths st] obtain ext1 where
    a: "trace ?st1 = trace st @ ext1"
      "\<forall>q. Open_Read q \<in> set ext1 \<longleftrightarrow> 2 \<le> length paths \<and> sz \<noteq> 0 \<and> q \<in> set paths"
    by blast
  from Cons [of ?st1] obtain ext2 where
    b: "trace (scan_groups w t d ?st1) = trace ?st1 @ ext2"
      "\<forall>q. Open_Read q \<in> set ext2 \<longleftrightarrow>
        (\<exists>sz paths. (sz, paths) \<in> set d \<and> 2 \<le> length paths \<and> sz \<noteq> 0 \<and> q \<in> set paths)"
    by blast
  have "scan_groups w t (e # d) st = scan_groups w t d ?st1"
    unfolding e by (rule scan_groups_Cons)
  with a b e show ?case
    by (intro exI [of _ "ext1 @ ext2"]) auto
qed

lemma scan_groups_bar_last:
  "bar_last t st \<Longrightarrow> bar_last t (scan_groups w t d st)"
proof (induction d arbitrary: st)
  case Nil
  then show ?case by simp
next
  case (Cons e d)
  obtain sz paths where e: "e = (sz, paths)" by (cases e)
  have "scan_groups w t (e # d) st = scan_groups w t d (scan_groups w t [(sz, paths)] st)"
    unfolding e by (rule scan_groups_Cons)
  with Cons scan_one_bar_last show ?case by simp
qed

section \<open>Empty files\<close>

lemma detect_opens:
  "Open_Read q \<in> set (trace (detect w fs)) \<longleftrightarrow>
     (\<exists>sz. sz \<noteq> 0 \<and> st_size w q = Some sz \<and> q \<in> set fs \<and>
        2 \<le> length (filter (\<lambda>f. st_size w f = Some sz) fs))"
proof -
  let ?d = "group_by_size w fs []"
  let ?st0 = "\<lparr>processed_count = unique_sized_files_count ?d, duplicates = [],
      trace = [Progress_Bar (unique_sized_files_count ?d) (length fs)]\<rparr>"
  from scan_groups_trace [of w "length fs" ?d ?st0] obtain ext where
    t: "trace (scan_groups w (length fs) ?d ?st0) = trace ?st0 @ ext"
    and o: "\<forall>q. Open_Read q \<in> set ext \<longleftrightarrow>
        (\<exists>sz paths. (sz, paths) \<in> set ?d \<and> 2 \<le> length paths \<and> sz \<noteq> 0 \<and> q \<in> set paths)"
    by blast
  have "Open_Read q \<in> set (trace (detect w fs)) \<longleftrightarrow> Open_Read q \<in> set ext"
    using t by (simp add: detect_def Let_def)
  also have "\<dots> \<longleftrightarrow> (\<exists>sz paths. (sz, paths) \<in> set ?d \<and> 2 \<le> length paths \<and> sz \<noteq> 0 \<and> q \<in> set paths)"
    using o by blast
  also have "\<dots> \<longleftrightarrow> (\<exists>sz. sz \<noteq> 0 \<and> st_size w q = Some sz \<and> q \<in> set fs \<and>
        2 \<le> length (filter (\<lambda>f. st_size w f = Some sz) fs))"
    unfolding size_group_iff by auto
  finally show ?thesis .
qed

lemma detect_bar_last: "bar_last (length fs) (detect w fs)"
  unfolding detect_def Let_def
  by (rule scan_groups_bar_last) (simp add: bar_last_def)

lemma distinct_singleton: "distinct xs \<Longrightarrow> set xs = {x} \<Longrightarrow> xs = [x]"
  by (cases xs; cases "tl xs") auto

lemma detect_zero_group_iff:
  assumes "2 \<le> length (zero_byte_files w fs)"
  shows "g \<in> set (duplicates (detect w fs)) \<and> file_size g = 0 \<longleftrightarrow>
     g = \<lparr>file_size = 0, files = zero_byte_files w fs\<rparr>"
proof
  assume a: "g \<in> set (duplicates (detect w fs)) \<and> file_size g = 0"
  then obtain sz where
    c: "if sz = 0 then g = \<lparr>file_size = 0, files = filter (\<lambda>f. st_size w f = Some 0) fs\<rparr>
         else \<exists>h. h \<noteq> [] \<and>
           g = \<lparr>file_size = sz,
                 files = filter (\<lambda>p. digest w p = h) (filter (\<lambda>f. st_size w f = Some sz) fs)\<rparr>
           \<and> 2 \<le> length (files g)"
    unfolding detect_group_iff by blast
  show "g = \<lparr>file_size = 0, files = zero_byte_files w fs\<rparr>"
  proof (cases "sz = 0")
    case True
    with c show ?thesis by (simp add: zero_byte_files_def)
  next
    case False
    with c have "file_size g = sz" by auto
    with a False show ?thesis by simp
  qed
next
  assume "g = \<lparr>file_size = 0, files = zero_byte_files w fs\<rparr>"
  with assms show "g \<in> set (duplicates (detect w fs)) \<and> file_size g = 0"
    unfolding detect_group_iff zero_byte_files_def by (intro conjI exI [of _ 0]) simp_all
qed

lemma detect_zero_jump:
  assumes "2 \<le> length (zero_byte_files w fs)"
  shows "\<exists>pre post n. trace (detect w fs)
     = pre @ [Progress_Bar n (length fs),
              Progress_Bar (n + length (zero_byte_files w fs)) (length fs)] @ post"
proof -
  let ?zs = "zero_byte_files w fs"
  let ?t = "length fs"
  let ?d = "group_by_size w fs []"
  let ?st0 = "\<lparr>processed_count = unique_sized_files_count ?d, duplicates = [],
      trace = [Progress_Bar (unique_sized_files_count ?d) ?t]\<rparr>"
  from assms have "?zs \<noteq> []" by auto
  then have "(0, ?zs) \<in> set ?d"
    by (simp add: size_group_iff zero_byte_files_def)
  then obtain d1 d2 where d: "?d = d1 @ (0, ?zs) # d2"
    by (auto dest: split_list)
  let ?st1 = "scan_groups w ?t d1 ?st0"
  let ?st2 = "scan_groups w ?t [(0, ?zs)] ?st1"
  have b0: "bar_last ?t ?st0" by (simp add: bar_last_def)
  then have "bar_last ?t ?st1" by (rule scan_groups_bar_last)
  then have t1: "trace ?st1 = butlast (trace ?st1) @ [Progress_Bar (processed_count ?st1) ?t]"
    unfolding bar_last_def by (metis append_butlast_last_id)
  from assms have t2: "trace ?st2
      = trace ?st1 @ [Progress_Bar (processed_count ?st1 + length ?zs) ?t]"
    by (simp add: Let_def)
  from scan_groups_trace [of w ?t d2 ?st2] obtain post where
    t3: "trace (scan_groups w ?t d2 ?st2) = trace ?st2 @ post"
    by blast
  have "detect w fs = scan_groups w ?t d2 ?st2"
    unfolding detect_def Let_def d
    by (simp only: scan_groups_append [of w ?t d1 "(0, ?zs) # d2"]
        scan_groups_Cons [of w ?t "(0, ?zs)" d2])
  then have "trace (detect w fs) = butlast (trace ?st1)
      @ [Progress_Bar (processed_count ?st1) ?t,
         Progress_Bar (processed_count ?st1 + length ?zs) ?t] @ post"
    using t1 t2 t3 by (metis append.assoc append_Cons append_Nil)
  then show ?thesis by blast
qed

text \<open>
  C4. When two or more files of the input have size zero, the scan emits exactly one group
  of size 0, whose members are all of them in input order; no other group holds an empty
  file; none of them is opened for hashing; and the counter advances by their number
  in one step, between two consecutive progress bars.
\<close>

theorem zero_byte_shortcut:
  assumes "2 \<le> length (zero_byte_files w all_files)"
  shows "filter (\<lambda>g. file_size g = 0) (duplicates (detect w all_files))
       = [\<lparr>file_size = 0, files = zero_byte_files w all_files\<rparr>] \<and>
     (\<forall>g \<in> set (duplicates (detect w all_files)). \<forall>f \<in> set (files g).
        st_size w f = Some 0 \<longrightarrow> g = \<lparr>file_size = 0, files = zero_byte_files w all_files\<rparr>) \<and>
     (\<forall>f \<in> set (zero_byte_files w all_files). Open_Read f \<notin> set (trace (detect w all_files))) \<and>
     (\<exists>pre post n. trace (detect w all_files)
        = pre @ [Progress_Bar n (length all_files),
                 Progress_Bar (n + length (zero_byte_files w all_files)) (length all_files)] @ post)"
proof (intro conjI ballI impI)
  let ?dups = "duplicates (detect w all_files)"
  let ?z = "\<lparr>file_size = 0, files = zero_byte_files w all_files\<rparr>"
  have "distinct (filter (\<lambda>g. file_size g = 0) ?dups)"
    using detect_groups_distinct [of w all_files] by simp
  moreover have "set (filter (\<lambda>g. file_size g = 0) ?dups) = {?z}"
    using detect_zero_group_iff [OF assms] by auto
  ultimately show "filter (\<lambda>g. file_size g = 0) ?dups = [?z]"
    by (rule distinct_singleton)
  show "g = ?z" if "g \<in> set ?dups" "f \<in> set (files g)" "st_size w f = Some 0" for g f
    using detect_group_of_member [OF that(1) that(2)] that(3)
    by (auto simp: zero_byte_files_def)
  show "Open_Read f \<notin> set (trace (detect w all_files))" if "f \<in> set (zero_byte_files w all_files)" for f
    using that by (auto simp: detect_opens zero_byte_files_def)
  show "\<exists>pre post n. trace (detect w all_files)
        = pre @ [Progress_Bar n (length all_files),
                 Progress_Bar (n + length (zero_byte_files w all_files)) (length all_files)] @ post"
    using assms by (rule detect_zero_jump)
qed


lemma example_zero_byte_files:
  "zero_byte_files example_world example_files = [[''d'', ''e1''], [''d'', ''e2'']]"
  by (simp add: zero_byte_files_def example_files_def example_st_size)

theorem zero_byte_shortcut_witness:
  "2 \<le> length (zero_byte_files example_world example_files) \<and>
   filter (\<lambda>g. file_size g = 0) (duplicates (detect example_world example_files))
     = [\<lparr>file_size = 0, files = [[''d'', ''e1''], [''d'', ''e2'']]\<rparr>] \<and>
   [''d'', ''e1''] \<in> set (zero_byte_files example_world example_files) \<and>
   Open_Read [''d'', ''e1''] \<notin> set (trace (detect example_world example_files)) \<and>
   (\<exists>pre post n. trace (detect example_world example_files)
      = pre @ [Progress_Bar n 6, Progress_Bar (n + 2) 6] @ post)"
proof -
  have l: "2 \<le> length (zero_byte_files example_world example_files)"
    by (simp add: example_zero_byte_files)
  note t = zero_byte_shortcut [OF l]
  have m: "[''d'', ''e1''] \<in> set (zero_byte_files example_world example_files)"
    by (simp add: example_zero_byte_files)
  have n: "length example_files = 6" by (simp add: example_files_def)
  from t have a: "filter (\<lambda>g. file_size g = 0) (duplicates (detect example_world example_files))
     = [\<lparr>file_size = 0, files = [[''d'', ''e1''], [''d'', ''e2'']]\<rparr>]"
    unfolding example_zero_byte_files by blast
  from t m have b: "Open_Read [''d'', ''e1''] \<notin> set (trace (detect example_world example_files))"
    by blast
  from t have c: "\<exists>pre post n. trace (detect example_world example_files)
      = pre @ [Progress_Bar n 6, Progress_Bar (n + 2) 6] @ post"
    unfolding example_zero_byte_files n by simp
  from l a m b c show ?thesis by blast
qed

section \<open>What is enumerated\<close>

lemma set_collect_names:
  "set (collect_names w root_dir names acc)
     = set acc \<union> {root_dir @ [name] | name. name \<in> set names \<and> \<not> is_symlink w (root_dir @ [name])}"
  by (induction names arbitrary: acc) (auto simp: Let_def)

lemma set_collect_files:
  "set (collect_files w triples acc) = set acc \<union> {p \<in> listed triples. \<not> is_symlink w p}"
proof (induction triples arbitrary: acc)
  case Nil
  then show ?case by (simp add: listed_def)
next
  case (Cons t triples)
  obtain root_dir dirs names where t: "t = (root_dir, dirs, names)" by (cases t)
  have "listed (t # triples) = {root_dir @ [name] | name. name \<in> set names} \<union> listed triples"
    unfolding t listed_def by auto
  with Cons t show ?case by (auto simp: set_collect_names)
qed

lemma listed_Cons:
  "listed ((root_dir, dirs, names) # triples) = {root_dir @ [name] | name. name \<in> set names} \<union> listed triples"
  unfolding listed_def by auto

lemma listed_append: "listed (xs @ ys) = listed xs \<union> listed ys"
  unfolding listed_def by auto

lemma listed_Nil: "listed [] = {}"
  unfolding listed_def by simp

lemma wf_entries_member: "wf_entries es \<Longrightarrow> (name, n) \<in> set es \<Longrightarrow> wf_node n"
  by (induction es) auto

lemma walk_listed:
  "distinct (map fst entries) \<Longrightarrow> wf_entries entries \<Longrightarrow>
     listed (walk top_dir entries)
       = {top_dir @ rel | rel n. node_at entries rel = Some n \<and> \<not> is_dir_entry n}"
  and walk_subdirs_listed:
  "wf_entries es \<Longrightarrow>
     listed (walk_subdirs top_dir es)
       = {top_dir @ name # rel | name sub rel n. (name, Directory sub) \<in> set es \<and>
            node_at sub rel = Some n \<and> \<not> is_dir_entry n}"
proof (induction top_dir entries and top_dir es rule: walk_walk_subdirs.induct)
  case (1 top_dir entries)
  have here: "{top_dir @ [name] | name. name \<in> set (map fst (filter (\<lambda>e. \<not> is_dir_entry (snd e)) entries))}
      = {top_dir @ rel | rel n. length rel = 1 \<and> node_at entries rel = Some n \<and> \<not> is_dir_entry n}"
    (is "?A = ?B")
  proof (intro set_eqI iffI)
    fix p assume "p \<in> ?A"
    then obtain name n where "p = top_dir @ [name]" "(name, n) \<in> set entries" "\<not> is_dir_entry n"
      by auto
    moreover from this "1.prems"(1) have "node_at entries [name] = Some n" by simp
    ultimately show "p \<in> ?B" by force
  next
    fix p assume "p \<in> ?B"
    then obtain rel n where r: "p = top_dir @ rel" "length rel = 1" "node_at entries rel = Some n"
      "\<not> is_dir_entry n" by auto
    from r(2) obtain name where n: "rel = [name]" by (cases rel) auto
    with r(3) have "(name, n) \<in> set entries" by (simp add: map_of_SomeD)
    with r n show "p \<in> ?A" by force
  qed
  have below: "{top_dir @ name # rel | name sub rel n. (name, Directory sub) \<in> set entries \<and>
            node_at sub rel = Some n \<and> \<not> is_dir_entry n}
      = {top_dir @ rel | rel n. length rel \<noteq> 1 \<and> node_at entries rel = Some n \<and> \<not> is_dir_entry n}"
    (is "?C = ?D")
  proof (intro set_eqI iffI)
    fix p assume "p \<in> ?C"
    then obtain name sub rel n where c: "p = top_dir @ name # rel" "(name, Directory sub) \<in> set entries"
      "node_at sub rel = Some n" "\<not> is_dir_entry n" by auto
    from c(3) have "rel \<noteq> []" by (cases rel) auto
    then obtain x xs where x: "rel = x # xs" by (cases rel) auto
    from c(2) "1.prems"(1) have "map_of entries name = Some (Directory sub)" by simp
    with c(3) x have "node_at entries (name # rel) = Some n" by simp
    with c x show "p \<in> ?D" by force
  next
    fix p assume "p \<in> ?D"
    then obtain rel n where r: "p = top_dir @ rel" "length rel \<noteq> 1" "node_at entries rel = Some n"
      "\<not> is_dir_entry n" by auto
    from r(3) obtain name rest where n: "rel = name # rest" by (cases rel) auto
    with r(2) obtain x xs where x: "rest = x # xs" by (cases rest) auto
    with r(3) n obtain sub where "map_of entries name = Some (Directory sub)" "node_at sub rest = Some n"
      by (auto split: option.splits fs_node.splits)
    then have "(name, Directory sub) \<in> set entries" "node_at sub rest = Some n"
      by (simp_all add: map_of_SomeD)
    with r n show "p \<in> ?C" by force
  qed
  have "listed (walk top_dir entries) = ?A \<union> listed (walk_subdirs top_dir entries)"
    by (simp add: walk.simps listed_Cons)
  also have "\<dots> = ?B \<union> ?C"
    using "1.IH" "1.prems"(2) here by simp
  also have "\<dots> = ?B \<union> ?D" using below by simp
  also have "\<dots> = {top_dir @ rel | rel n. node_at entries rel = Some n \<and> \<not> is_dir_entry n}"
    by auto
  finally show ?case .
next
  case (2 top_dir)
  then show ?case by (simp add: listed_Nil)
next
  case (3 top_dir name sub rest)
  from "3.prems" have w: "distinct (map fst sub)" "wf_entries sub" "wf_entries rest" by simp_all
  have "listed (walk_subdirs top_dir ((name, Directory sub) # rest))
      = listed (walk (top_dir @ [name]) sub) \<union> listed (walk_subdirs top_dir rest)"
    by (simp only: walk_subdirs.simps listed_append)
  also have "\<dots> = {(top_dir @ [name]) @ rel | rel n. node_at sub rel = Some n \<and> \<not> is_dir_entry n}
      \<union> {top_dir @ name' # rel | name' sub' rel n. (name', Directory sub') \<in> set rest \<and>
            node_at sub' rel = Some n \<and> \<not> is_dir_entry n}"
    using "3.IH"(1) [OF w(1) w(2)] "3.IH"(2) [OF w(3)] by simp
  also have "\<dots> = {top_dir @ name' # rel | name' sub' rel n.
        (name', Directory sub') \<in> set ((name, Directory sub) # rest) \<and>
            node_at sub' rel = Some n \<and> \<not> is_dir_entry n}"
    by auto
  finally show ?case .
qed simp_all

lemma tree_is_symlink:
  "is_symlink (tree_world top_dir entries) (top_dir @ rel)
     \<longleftrightarrow> (\<exists>n. node_at entries rel = Some n \<and> is_link n)"
  by (auto simp: tree_world_def split: option.splits)

lemma plain_node: "\<not> is_dir_entry n \<and> \<not> is_link n \<longleftrightarrow> is_regular n \<or> n = Special_File"
  by (cases n) auto

lemma tree_enumeration:
  assumes "distinct (map fst entries)" and "wf_entries entries"
  shows "\<exists>all_files. enumerate_files (tree_world top_dir entries) top_dir = Inr all_files \<and>
     (\<forall>p. p \<in> set all_files \<longleftrightarrow>
        (\<exists>rel n. p = top_dir @ rel \<and> node_at entries rel = Some n \<and>
           (is_regular n \<or> n = Special_File)))"
proof -
  let ?w = "tree_world top_dir entries"
  let ?fs = "collect_files ?w (walk top_dir entries) []"
  have e: "enumerate_files ?w top_dir = Inr ?fs"
    by (simp add: enumerate_files_def) (simp add: tree_world_def)
  have "p \<in> set ?fs \<longleftrightarrow>
        (\<exists>rel n. p = top_dir @ rel \<and> node_at entries rel = Some n \<and>
           (is_regular n \<or> n = Special_File))" for p
  proof -
    have "p \<in> set ?fs \<longleftrightarrow> p \<in> listed (walk top_dir entries) \<and> \<not> is_symlink ?w p"
      by (simp add: set_collect_files)
    also have "\<dots> \<longleftrightarrow> (\<exists>rel n. p = top_dir @ rel \<and> node_at entries rel = Some n
        \<and> \<not> is_dir_entry n \<and> \<not> is_symlink ?w (top_dir @ rel))"
      unfolding walk_listed [OF assms] by auto
    also have "\<dots> \<longleftrightarrow> (\<exists>rel n. p = top_dir @ rel \<and> node_at entries rel = Some n
        \<and> \<not> is_dir_entry n \<and> \<not> is_link n)"
      unfolding tree_is_symlink by auto
    finally show ?thesis unfolding plain_node .
  qed
  with e show ?thesis by blast
qed

lemma enumerated_not_symlink:
  "enumerate_files w target_dir = Inr all_files \<Longrightarrow> p \<in> set all_files \<Longrightarrow> \<not> is_symlink w p"
  by (auto simp: enumerate_files_def set_collect_files split: sum.splits)

lemma fifo_tree_walk:
  "walk [''d''] fifo_tree
     = [([''d''], [''sub''], [''a.txt'', ''pipe'', ''sock'', ''link'']),
        ([''d'', ''sub''], [''up''], [''b.txt''])]"
  by (simp add: walk.simps fifo_tree_def)

lemma fifo_tree_enumerated:
  "enumerate_files (tree_world [''d''] fifo_tree) [''d'']
     = Inr [[''d'', ''a.txt''], [''d'', ''pipe''], [''d'', ''sock''], [''d'', ''sub'', ''b.txt'']]"
proof -
  have "os_walk (tree_world [''d''] fifo_tree) [''d''] = Inr (walk [''d''] fifo_tree)"
    by (simp add: tree_world_def)
  moreover have "is_symlink (tree_world [''d''] fifo_tree) [''d'', ''link'']"
    "\<not> is_symlink (tree_world [''d''] fifo_tree) [''d'', ''a.txt'']"
    "\<not> is_symlink (tree_world [''d''] fifo_tree) [''d'', ''pipe'']"
    "\<not> is_symlink (tree_world [''d''] fifo_tree) [''d'', ''sock'']"
    "\<not> is_symlink (tree_world [''d''] fifo_tree) [''d'', ''sub'', ''b.txt'']"
    by (simp_all add: tree_world_def fifo_tree_def)
  ultimately show ?thesis
    by (simp add: enumerate_files_def fifo_tree_walk)
qed

text \<open>
  C6. The claim is that an entry is enumerated exactly when it is a regular file and not
  a symbolic link. The code tests \<^verbatim>\<open>is_symlink\<close> only, on every name that \<^verbatim>\<open>os.walk\<close>
  lists as a non-directory: symbolic links are never enumerated and regular files
  always are, but so is every special file (\<open>tree_enumeration\<close>). In a directory with
  a regular file, a FIFO, a socket, a link and a sub-directory, the FIFO and the socket
  are enumerated, and the scan reports them as one group of duplicates of size 0.
\<close>

theorem special_files_enumerated:
  "enumerate_files (tree_world [''d''] fifo_tree) [''d'']
     = Inr [[''d'', ''a.txt''], [''d'', ''pipe''], [''d'', ''sock''], [''d'', ''sub'', ''b.txt'']] \<and>
   node_at fifo_tree [''pipe''] = Some Special_File \<and>
   node_at fifo_tree [''sock''] = Some Special_File \<and>
   \<not> is_regular Special_File \<and>
   duplicates (detect (tree_world [''d''] fifo_tree)
       [[''d'', ''a.txt''], [''d'', ''pipe''], [''d'', ''sock''], [''d'', ''sub'', ''b.txt'']])
     = [\<lparr>file_size = 1, files = [[''d'', ''a.txt''], [''d'', ''sub'', ''b.txt'']]\<rparr>,
        \<lparr>file_size = 0, files = [[''d'', ''pipe''], [''d'', ''sock'']]\<rparr>]"
proof (intro conjI)
  show "enumerate_files (tree_world [''d''] fifo_tree) [''d'']
     = Inr [[''d'', ''a.txt''], [''d'', ''pipe''], [''d'', ''sock''], [''d'', ''sub'', ''b.txt'']]"
    by (rule fifo_tree_enumerated)
  show "duplicates (detect (tree_world [''d''] fifo_tree)
       [[''d'', ''a.txt''], [''d'', ''pipe''], [''d'', ''sock''], [''d'', ''sub'', ''b.txt'']])
     = [\<lparr>file_size = 1, files = [[''d'', ''a.txt''], [''d'', ''sub'', ''b.txt'']]\<rparr>,
        \<lparr>file_size = 0, files = [[''d'', ''pipe''], [''d'', ''sock'']]\<rparr>]"
    by (simp add: detect_def tree_world_def fifo_tree_def unique_sized_files_count_def
        compute_file_hash_def Let_def read_chunks_append)
qed (simp_all add: fifo_tree_def)

section \<open>Rounding to a double\<close>

lemma bit_length_bounds:
  "0 < n \<Longrightarrow> 2 ^ (bit_length n - 1) \<le> n \<and> n < 2 ^ bit_length n"
proof (induction n rule: bit_length.induct)
  case (1 n)
  show ?case
  proof (cases "n = 1")
    case True
    then show ?thesis by (simp add: bit_length.simps)
  next
    case False
    with "1.prems" have h: "0 < n div 2" by simp
    with "1.IH" "1.prems" have ih: "2 ^ (bit_length (n div 2) - 1) \<le> n div 2"
      "n div 2 < 2 ^ bit_length (n div 2)" by simp_all
    from h have p: "0 < bit_length (n div 2)" by (subst bit_length.simps) simp
    have b: "bit_length n = Suc (bit_length (n div 2))"
      using "1.prems" by (subst bit_length.simps) simp
    from ih(1) have "2 * 2 ^ (bit_length (n div 2) - 1) \<le> n" by linarith
    moreover from p have "(2::int) * 2 ^ (bit_length (n div 2) - 1) = 2 ^ bit_length (n div 2)"
      by (cases "bit_length (n div 2)") simp_all
    moreover from ih(2) have "n < 2 * 2 ^ bit_length (n div 2)" by linarith
    ultimately show ?thesis using b by simp
  qed
qed

lemma bit_length_pos: "0 < n \<Longrightarrow> 0 < bit_length n"
  by (subst bit_length.simps) simp


lemma quotient_bounds:
  assumes "0 < x" and "quotient_of x = (a, b)"
  shows "2 powi (int (bit_length a) - int (bit_length b) - 1) \<le> x"
    and "x < 2 powi (int (bit_length a) - int (bit_length b) + 1)"
proof -
  from assms(2) have b: "0 < b" by (rule quotient_of_denom_pos)
  from assms(2) have x: "x = of_int a / of_int b" by (rule quotient_of_div)
  with assms(1) b have a: "0 < a" by (simp add: zero_less_divide_iff)
  let ?la = "bit_length a" and ?lb = "bit_length b"
  from a b have pa: "0 < ?la" and pb: "0 < ?lb" by (simp_all add: bit_length_pos)
  from a have "2 ^ (?la - 1) \<le> a" "a < 2 ^ ?la" using bit_length_bounds by blast+
  then have ra: "(2::rat) ^ (?la - 1) \<le> of_int a" "(of_int a :: rat) < 2 ^ ?la"
    by (metis of_int_le_iff of_int_numeral of_int_power, metis of_int_less_iff of_int_numeral of_int_power)
  from b have "2 ^ (?lb - 1) \<le> b" "b < 2 ^ ?lb" using bit_length_bounds by blast+
  then have rb: "(2::rat) ^ (?lb - 1) \<le> of_int b" "(of_int b :: rat) < 2 ^ ?lb"
    by (metis of_int_le_iff of_int_numeral of_int_power, metis of_int_less_iff of_int_numeral of_int_power)
  have "(2::rat) powi (int ?la - int ?lb - 1) = 2 ^ (?la - 1) / 2 ^ ?lb"
  proof -
    have "int ?la - int ?lb - 1 = int (?la - 1) - int ?lb" using pa by simp
    then have "(2::rat) powi (int ?la - int ?lb - 1) = 2 powi (int (?la - 1) - int ?lb)"
      by (simp only:)
    also have "\<dots> = 2 powi int (?la - 1) / 2 powi int ?lb"
      by (rule power_int_diff) simp
    finally show ?thesis by (simp only: power_int_of_nat)
  qed
  also have "\<dots> \<le> of_int a / of_int b"
    using ra(1) rb(2) a b by (intro frac_le) simp_all
  finally show "2 powi (int ?la - int ?lb - 1) \<le> x" using x by simp
  have "x = of_int a / of_int b" by (rule x)
  also have "\<dots> < 2 ^ ?la / 2 ^ (?lb - 1)"
    using ra(2) rb(1) a b by (intro frac_less) simp_all
  also have "\<dots> = (2::rat) powi (int ?la - int ?lb + 1)"
  proof -
    have "int ?la - int ?lb + 1 = int ?la - int (?lb - 1)" using pb by simp
    then have "(2::rat) powi (int ?la - int ?lb + 1) = 2 powi (int ?la - int (?lb - 1))"
      by (simp only:)
    also have "\<dots> = 2 powi int ?la / 2 powi int (?lb - 1)"
      by (rule power_int_diff) simp
    finally show ?thesis by (simp only: power_int_of_nat)
  qed
  finally show "x < 2 powi (int ?la - int ?lb + 1)" .
qed

lemma ilog2_bounds:
  assumes "0 < x"
  shows "2 powi ilog2 x \<le> x" and "x < 2 powi (ilog2 x + 1)"
proof -
  obtain a b where q: "quotient_of x = (a, b)" by (cases "quotient_of x")
  let ?e = "int (bit_length a) - int (bit_length b)"
  note qb = quotient_bounds [OF assms q]
  have i: "ilog2 x = (if 2 powi ?e \<le> x then ?e else ?e - 1)"
    by (simp add: ilog2_def q Let_def)
  show "2 powi ilog2 x \<le> x"
    using qb(1) by (simp add: i)
  show "x < 2 powi (ilog2 x + 1)"
    using qb(2) by (auto simp: i)
qed


lemma round_half_even_le: "x \<le> of_int m \<Longrightarrow> round_half_even x \<le> m"
proof -
  assume a: "x \<le> of_int m"
  then have f: "\<lfloor>x\<rfloor> \<le> m" by (simp add: floor_le_iff)
  show ?thesis
  proof (cases "\<lfloor>x\<rfloor> = m")
    case True
    with a have "x = of_int \<lfloor>x\<rfloor>" using of_int_floor_le [of x] by simp
    then have "x - of_int \<lfloor>x\<rfloor> = 0" by simp
    then have "round_half_even x = \<lfloor>x\<rfloor>" by (simp add: round_half_even_def Let_def)
    with True show ?thesis by simp
  next
    case False
    with f have "\<lfloor>x\<rfloor> + 1 \<le> m" by simp
    then show ?thesis by (simp add: round_half_even_def Let_def)
  qed
qed

lemma round_half_even_ge: "of_int m \<le> x \<Longrightarrow> m \<le> round_half_even x"
proof -
  assume "of_int m \<le> x"
  then have "m \<le> \<lfloor>x\<rfloor>" by (simp add: le_floor_iff)
  then show ?thesis by (simp add: round_half_even_def Let_def)
qed

lemma round_double_finite:
  assumes "0 \<le> x" and "x \<le> 2 ^ k" and "k \<le> 1023"
  shows "\<exists>r. round_double x = Finite r \<and> 0 \<le> r \<and> r \<le> 2 ^ k"
proof (cases "x = 0")
  case True
  then show ?thesis by (simp add: round_double_def)
next
  case False
  with assms(1) have pos: "0 < x" by simp
  define e where "e = ilog2 x"
  define j where "j = max e (- 1022) - 52"
  define q :: rat where "q = 2 powi j"
  define r where "r = of_int (round_half_even (x / q)) * q"
  have qpos: "0 < q" by (simp add: q_def)
  have "(2::rat) powi e \<le> 2 powi int k"
    using ilog2_bounds(1) [OF pos] assms(2) by (simp add: e_def)
  then have "e \<le> int k" by (rule power_int_le_imp_le_exp [rotated]) simp_all
  then have jk: "j \<le> int k" by (simp add: j_def)
  define m where "m = (2::int) ^ nat (int k - j)"
  have mq: "of_int m * q = 2 ^ k"
  proof -
    have "of_int m * q = (2::rat) powi (int k - j) * 2 powi j"
      using jk by (simp add: m_def q_def power_int_def)
    also have "\<dots> = 2 powi (int k - j + j)"
      by (rule power_int_add [symmetric]) simp
    finally show ?thesis by simp
  qed
  then have "x / q \<le> of_int m"
    using assms(2) qpos by (simp add: pos_divide_le_eq)
  then have "round_half_even (x / q) \<le> m" by (rule round_half_even_le)
  then have "of_int (round_half_even (x / q)) * q \<le> of_int m * q"
    using qpos by (simp add: mult_right_mono)
  then have le: "r \<le> 2 ^ k" using mq by (simp add: r_def)
  have "(0::rat) \<le> x / q" using pos qpos by simp
  then have "0 \<le> round_half_even (x / q)"
    using round_half_even_ge [of 0 "x / q"] by simp
  then have nonneg: "0 \<le> r" using qpos by (simp add: r_def)
  have "(2::rat) ^ k \<le> 2 ^ 1023" using assms(3) by (intro power_increasing) simp_all
  also have "\<dots> < 2 ^ 1024" by (intro power_strict_increasing) simp_all
  finally have "r < 2 ^ 1024" using le by simp
  then have "round_double x = Finite r"
    using False unfolding round_double_def Let_def r_def q_def j_def e_def by simp
  with le nonneg show ?thesis by blast
qed



lemma and_then_Inr: "and_then (Inr x) f = f x"
  by (simp add: and_then_def)

lemma and_then_Inl: "and_then (Inl e) f = Inl e"
  by (simp add: and_then_def)

lemma py_truediv_fraction:
  assumes "a \<le> b" and "0 < b"
  shows "\<exists>f. py_truediv a b = Inr f \<and> 0 \<le> f \<and> f \<le> 1"
proof -
  have "(0::rat) \<le> of_nat a / of_nat b" by simp
  moreover have "(of_nat a / of_nat b :: rat) \<le> 2 ^ 0"
    using assms by (simp add: divide_le_eq_1)
  ultimately obtain r where "round_double (of_nat a / of_nat b) = Finite r" "0 \<le> r" "r \<le> 2 ^ 0"
    using round_double_finite [of "of_nat a / of_nat b" 0] by auto
  with assms(2) show ?thesis by (simp add: py_truediv_def)
qed

lemma py_int_float_mul:
  assumes "0 \<le> a" and "0 \<le> b" and "a * b \<le> 2 ^ k" and "k \<le> 1023"
  shows "\<exists>n. py_int (float_mul a b) = Inr n \<and> 0 \<le> n \<and> n \<le> 2 ^ k"
proof -
  from assms(1,2) have "0 \<le> a * b" by simp
  with assms(3,4) obtain r where r: "round_double (a * b) = Finite r" "0 \<le> r" "r \<le> 2 ^ k"
    using round_double_finite [of "a * b" k] by auto
  from r(3) have "\<lfloor>r\<rfloor> \<le> 2 ^ k"
    by (metis floor_le_iff floor_of_int of_int_numeral of_int_power floor_mono)
  with r show ?thesis by (simp add: py_int_def float_mul_def)
qed

lemma print_progress_bar_returns:
  assumes "current \<le> total_count"
  shows "\<exists>line. print_progress_bar current total_count 30 = Inr line"
proof -
  obtain f where f: "(if total_count > 0 then py_truediv current total_count else Inr 1) = Inr f"
    "0 \<le> f" "f \<le> 1"
  proof (cases "total_count > 0")
    case True
    with assms py_truediv_fraction [of current total_count] that show ?thesis by auto
  next
    case False
    with that [of 1] show ?thesis by simp
  qed
  have "f * 100 \<le> 2 ^ 7" using f(3) by simp
  with f(2) obtain p where p: "py_int (float_mul f 100) = Inr p"
    using py_int_float_mul [of f 100 7] by auto
  have "(0::rat) \<le> of_nat 30" "(of_nat 30 :: rat) \<le> 2 ^ 5" by simp_all
  then obtain len where len: "round_double (of_nat 30) = Finite len" "0 \<le> len" "len \<le> 2 ^ 5"
    using round_double_finite [of "of_nat 30" 5] by auto
  then have l: "py_float_of_int 30 = Inr len" by (simp add: py_float_of_int_def)
  have "len * f \<le> 2 ^ 5 * 1"
    using len(2,3) f(2,3) by (intro mult_mono) simp_all
  then have "len * f \<le> 2 ^ 5" by simp
  with len(2) f(2) obtain n where n: "py_int (float_mul len f) = Inr n" "0 \<le> n" "n \<le> 2 ^ 5"
    using py_int_float_mul [of len f 5] by auto
  from n(3) have r1: "py_repeat Filled n = Inr (replicate (nat n) Filled)"
    by (simp add: py_repeat_def sys_maxsize_def)
  from n(2) have r2: "py_repeat Dash (int 30 - n) = Inr (replicate (nat (int 30 - n)) Dash)"
    by (simp add: py_repeat_def sys_maxsize_def)
  show ?thesis
    by (simp only: print_progress_bar_def f(1) and_then_Inr p l n(1) r1 r2) simp
qed






section \<open>The calls of the progress bar\<close>

lemma compute_file_hash_no_bar:
  "Progress_Bar c t \<notin> set (snd (compute_file_hash w p))"
  by (auto simp: compute_file_hash_def split: sum.splits)

lemma hash_paths_bars:
  "Progress_Bar c t' \<in> set (trace (snd (hash_paths w t ps fbh st))) \<Longrightarrow>
     Progress_Bar c t' \<in> set (trace st) \<or> (t' = t \<and> c \<le> processed_count st + length ps)"
proof (induction ps arbitrary: fbh st)
  case Nil
  then show ?case by simp
next
  case (Cons p ps)
  obtain h out where c: "compute_file_hash w p = (h, out)"
    by (cases "compute_file_hash w p")
  then have o: "Progress_Bar c t' \<notin> set out"
    using compute_file_hash_no_bar [of c t' w p] by simp
  let ?st' = "st\<lparr>processed_count := processed_count st + 1,
      trace := trace st @ out @ [Progress_Bar (processed_count st + 1) t]\<rparr>"
  let ?fbh' = "if h \<noteq> [] then dd_append fbh h p else fbh"
  have "hash_paths w t (p # ps) fbh st = hash_paths w t ps ?fbh' ?st'"
    using c by (simp add: Let_def)
  with Cons.prems have "Progress_Bar c t' \<in> set (trace (snd (hash_paths w t ps ?fbh' ?st')))"
    by simp
  from Cons.IH [OF this] o show ?case by auto
qed

lemma scan_groups_processed_mono:
  "processed_count st \<le> processed_count (scan_groups w t d st)"
  by (simp add: scan_groups_processed_count)

lemma scan_one_bars:
  "Progress_Bar c t' \<in> set (trace (scan_groups w t [(sz, paths)] st)) \<Longrightarrow>
     Progress_Bar c t' \<in> set (trace st) \<or>
     (t' = t \<and> c \<le> processed_count (scan_groups w t [(sz, paths)] st))"
proof (cases "length paths < 2")
  case True
  then show "Progress_Bar c t' \<in> set (trace (scan_groups w t [(sz, paths)] st)) \<Longrightarrow> ?thesis"
    by simp
next
  case long: False
  assume a: "Progress_Bar c t' \<in> set (trace (scan_groups w t [(sz, paths)] st))"
  show ?thesis
  proof (cases "sz = 0")
    case True
    with long a show ?thesis by (auto simp: Let_def)
  next
    case False
    obtain fbh st' where h: "hash_paths w t paths [] st = (fbh, st')"
      by (cases "hash_paths w t paths [] st")
    with long False a have "Progress_Bar c t' \<in> set (trace (snd (hash_paths w t paths [] st)))"
      by simp
    then have "Progress_Bar c t' \<in> set (trace st) \<or> (t' = t \<and> c \<le> processed_count st + length paths)"
      by (rule hash_paths_bars)
    moreover have "processed_count (scan_groups w t [(sz, paths)] st) = processed_count st + length paths"
      using long by (simp only: scan_groups_processed_count) simp
    ultimately show ?thesis by simp
  qed
qed

lemma scan_groups_bars:
  "Progress_Bar c t' \<in> set (trace (scan_groups w t d st)) \<Longrightarrow>
     Progress_Bar c t' \<in> set (trace st) \<or> (t' = t \<and> c \<le> processed_count (scan_groups w t d st))"
proof (induction d arbitrary: st)
  case Nil
  then show ?case by simp
next
  case (Cons e d)
  obtain sz paths where e: "e = (sz, paths)" by (cases e)
  let ?st1 = "scan_groups w t [(sz, paths)] st"
  have s: "scan_groups w t (e # d) st = scan_groups w t d ?st1"
    unfolding e by (rule scan_groups_Cons)
  with Cons.prems have "Progress_Bar c t' \<in> set (trace (scan_groups w t d ?st1))" by simp
  from Cons.IH [OF this] show ?case
  proof
    assume "Progress_Bar c t' \<in> set (trace ?st1)"
    then have "Progress_Bar c t' \<in> set (trace st) \<or> (t' = t \<and> c \<le> processed_count ?st1)"
      by (rule scan_one_bars)
    moreover have "processed_count ?st1 \<le> processed_count (scan_groups w t d ?st1)"
      by (rule scan_groups_processed_mono)
    ultimately show ?thesis unfolding s by auto
  next
    assume "t' = t \<and> c \<le> processed_count (scan_groups w t d ?st1)"
    then show ?thesis unfolding s by simp
  qed
qed

lemma detect_bars:
  assumes "Progress_Bar c t \<in> set (trace (detect w fs))"
  shows "t = length fs \<and> c \<le> t"
proof -
  let ?d = "group_by_size w fs []"
  let ?st0 = "\<lparr>processed_count = unique_sized_files_count ?d, duplicates = [],
      trace = [Progress_Bar (unique_sized_files_count ?d) (length fs)]\<rparr>"
  have d: "detect w fs = scan_groups w (length fs) ?d ?st0"
    by (simp add: detect_def Let_def)
  with assms have "Progress_Bar c t \<in> set (trace (scan_groups w (length fs) ?d ?st0))" by simp
  then have "Progress_Bar c t \<in> set (trace ?st0)
      \<or> (t = length fs \<and> c \<le> processed_count (scan_groups w (length fs) ?d ?st0))"
    by (rule scan_groups_bars)
  moreover have "processed_count ?st0 \<le> processed_count (scan_groups w (length fs) ?d ?st0)"
    by (rule scan_groups_processed_mono)
  moreover have "processed_count (detect w fs) \<le> length fs"
    by (rule detect_processed_count_le)
  ultimately show ?thesis unfolding d by auto
qed



lemma scan_progress_bars_return:
  "Progress_Bar c t \<in> set (trace (detect w fs)) \<Longrightarrow> \<exists>line. print_progress_bar c t 30 = Inr line"
  using detect_bars [of c t w fs] print_progress_bar_returns [of c t] by blast




end
